theory Spec2Isabelle
  imports Main "HOL-Library.Word"
begin

section \<open>The flasher of pkg/flasher/flash.go\<close>

text \<open>
  A shallow embedding of \<^verbatim>\<open>pkg/flasher/flash.go\<close>. Every method of \<^verbatim>\<open>flasher\<close> becomes a
  function that takes the collaborators (\<open>env\<close>), the configuration and the state of the
  outside world, and returns its Go result together with the new state. The state holds
  the trace of the effects performed so far, in order, and the content of every device.
\<close>

subsection \<open>Data\<close>

type_synonym byte = "8 word"

text \<open>A \<^verbatim>\<open>time.Time\<close> without monotonic reading, as an instant in nanoseconds.\<close>

type_synonym time = int

text \<open>
  The values of Go's \<^verbatim>\<open>error\<close> that flash.go creates with \<^verbatim>\<open>errors.New\<close>, the two
  \<^verbatim>\<open>*strconv.NumError\<close> causes of \<^verbatim>\<open>strconv.Atoi\<close>, and the errors that a collaborator hands
  back (\<open>External\<close>, with its message). \<open>PanicIndexOutOfRange\<close> is no error value: it is
  the run-time panic of a slice index out of range, which unwinds the call stack running
  the deferred calls.
\<close>

datatype error =
    ErrSyntax                  \<comment> \<open>strconv.Atoi: invalid syntax\<close>
  | ErrRange                   \<comment> \<open>strconv.Atoi: value out of range\<close>
  | CantFindSource             \<comment> \<open>"can't find source"\<close>
  | InvalidImageChosen         \<comment> \<open>"invalid image chosen"\<close>
  | NoDevices                  \<comment> \<open>"no devices"\<close>
  | ConfiguredDeviceNotFound   \<comment> \<open>"configured device not found"\<close>
  | AmbiguousDevice            \<comment> \<open>"ambiguous device"\<close>
  | InvalidSelection           \<comment> \<open>"invalid selection"\<close>
  | CanceledByUser             \<comment> \<open>"canceled by user"\<close>
  | ChecksumsDifferent         \<comment> \<open>"checksums different - validation failed"\<close>
  | ErrShortWrite              \<comment> \<open>io.ErrShortWrite\<close>
  | External string
  | PanicIndexOutOfRange

record FlashConfig =
  cfg_Image :: string
  cfg_Device :: string
  cfg_NotInteractive :: bool
  cfg_Verify :: bool

text \<open>
  \<^verbatim>\<open>utils.Device\<close> is declared outside flash.go; these are the three fields flash.go reads.
\<close>

record device =
  dev_Device :: string
  dev_Name :: string
  dev_Mountpoints :: "string list"

text \<open>\<^verbatim>\<open>Sum\<close> is a slice: the nil slice and the empty slice are both \<open>[]\<close> (length 0).\<close>

record FlashResult =
  res_Sum :: "byte list"
  res_BytesWritten :: "64 word"

text \<open>
  An \<^verbatim>\<open>io.Reader\<close> as the copy loop sees it: the chunks that its successive reads deliver,
  and how the stream ends (\<open>None\<close> is \<^verbatim>\<open>io.EOF\<close>, \<open>Some e\<close> a read error after the chunks).
\<close>

record reader =
  reads :: "byte list list"
  rerr :: "error option"

subsection \<open>Effects and the outside world\<close>

datatype event =
    Say string                        \<comment> \<open>ui.Say\<close>
  | Ask string                        \<comment> \<open>ui.Ask\<close>
  | Umount string                     \<comment> \<open>exec.Command("umount", m).Run()\<close>
  | OpenFile string                   \<comment> \<open>os.OpenFile(path, os.O_RDWR, 0)\<close>
  | WriteFile string nat "byte list"  \<comment> \<open>a Write on the open device: path, offset, chunk\<close>
  | ReadFile string "byte list"       \<comment> \<open>a Read on the open device: path, chunk delivered\<close>
  | CloseFile string
  | CloseImage                        \<comment> \<open>Close of the image.Image\<close>
  | Sync                              \<comment> \<open>syscall.Sync()\<close>

record world =
  trace :: "event list"
  disk :: "string \<Rightarrow> byte list"

definition emit :: "event list \<Rightarrow> world \<Rightarrow> world" where
  "emit evs w = w\<lparr>trace := trace w @ evs\<rparr>"

text \<open>
  The collaborators. Each answers as a function of its request; opening the device also
  sees the trace, since the device may vanish between the write and the verification.
  \<open>write_fault\<close> tells whether the write of a chunk at an offset of a device fails, and
  if so with how many bytes of the chunk written before the error (a short write);
  \<open>device_read\<close> gives the stream that reading a device from offset 0 delivers when the
  medium holds the given content; \<open>newHasher\<close> is the package variable of that name, as
  the digest that \<^verbatim>\<open>Sum(nil)\<close> returns once the given bytes have been written to the hash.
  \<open>strings_ToLower\<close> and \<open>strings_TrimSpace\<close> are the functions of Go's package
  \<^verbatim>\<open>strings\<close>, which work on Unicode text: they are taken as they are, not redefined.
\<close>

record env =
  ui_Ask :: "string \<Rightarrow> error + string"
  GetImageFilesInCurrentDir :: "string list"
  os_Stat :: "string \<Rightarrow> error + time"
  imageOpener_Open :: "string \<Rightarrow> error + reader"
  GetDetachableDevices :: "error + device list"
  exec_umount :: "string \<Rightarrow> error option"
  os_OpenFile :: "event list \<Rightarrow> string \<Rightarrow> error option"
  write_fault :: "string \<Rightarrow> nat \<Rightarrow> byte list \<Rightarrow> (nat \<times> error) option"
  device_read :: "string \<Rightarrow> byte list \<Rightarrow> reader"
  newHasher :: "byte list \<Rightarrow> byte list"
  strings_ToLower :: "string \<Rightarrow> string"
  strings_TrimSpace :: "string \<Rightarrow> string"

subsection \<open>The functions of the Go library that flash.go calls\<close>

text \<open>Strings are byte strings, as in Go.\<close>

definition is_digit :: "char \<Rightarrow> bool" where
  "is_digit c = (48 \<le> (of_char c :: nat) \<and> (of_char c :: nat) \<le> 57)"

definition digit_val :: "char \<Rightarrow> nat" where
  "digit_val c = of_char c - 48"

text \<open>
  The loop of \<^verbatim>\<open>strconv.ParseUint(s, 10, 64)\<close> over the bytes, from left to right: a byte
  that is no digit is a syntax error; a digit that takes the value beyond 64 bits is a
  range error, returned at once, whatever follows.
\<close>

fun ParseUint_loop :: "nat \<Rightarrow> string \<Rightarrow> error + nat" where
  "ParseUint_loop n [] = Inr n"
| "ParseUint_loop n (c # cs) =
     (if \<not> is_digit c then Inl ErrSyntax
      else if (2 ^ 64 - 1) div 10 + 1 \<le> n then Inl ErrRange
      else if 2 ^ 64 - 1 < n * 10 + digit_val c then Inl ErrRange
      else ParseUint_loop (n * 10 + digit_val c) cs)"

definition ParseUint :: "string \<Rightarrow> error + nat" where
  "ParseUint s = (if s = [] then Inl ErrSyntax else ParseUint_loop 0 s)"

text \<open>
  \<^verbatim>\<open>strconv.Atoi\<close> (64-bit \<^verbatim>\<open>int\<close>), as \<^verbatim>\<open>ParseInt(s, 10, 0)\<close> computes it: an optional sign,
  the unsigned value of the rest, and the range of \<^verbatim>\<open>int\<close>. Its fast path for short strings
  gives the same results.
\<close>

definition Atoi :: "string \<Rightarrow> error + int" where
  "Atoi s =
    (if s = [] then Inl ErrSyntax
     else
       (let neg = (hd s = CHR ''-'');
            ds = (if hd s = CHR ''-'' \<or> hd s = CHR ''+'' then tl s else s)
        in case ParseUint ds of
             Inl err \<Rightarrow> Inl err
           | Inr un \<Rightarrow>
               if \<not> neg \<and> 2 ^ 63 \<le> un then Inl ErrRange
               else if neg \<and> 2 ^ 63 < un then Inl ErrRange
               else Inr (if neg then - int un else int un)))"

text \<open>The decimal value of a string of digits, to state what \<^verbatim>\<open>Atoi\<close> reads.\<close>

fun digits_val :: "nat \<Rightarrow> string \<Rightarrow> nat" where
  "digits_val n [] = n"
| "digits_val n (c # cs) = digits_val (n * 10 + digit_val c) cs"

text \<open>\<^verbatim>\<open>fmt.Sprintf("%d", n)\<close> for a non-negative \<open>n\<close>.\<close>

fun Itoa :: "nat \<Rightarrow> string" where
  "Itoa n = (if n < 10 then [char_of (48 + n)] else Itoa (n div 10) @ [char_of (48 + n mod 10)])"

text \<open>\<^verbatim>\<open>strings.HasPrefix(s, prefix)\<close>: \<^verbatim>\<open>len(s) >= len(prefix) && s[:len(prefix)] == prefix\<close>.\<close>

definition HasPrefix :: "string \<Rightarrow> string \<Rightarrow> bool" where
  "HasPrefix s p = (length p \<le> length s \<and> take (length p) s = p)"

subsection \<open>getMostRecent\<close>

text \<open>
  The loop of \<^verbatim>\<open>getMostRecent\<close>, with its two variables \<^verbatim>\<open>max\<close> (here \<open>max_f\<close>) and \<^verbatim>\<open>maxModified\<close>
  as arguments. A failing \<^verbatim>\<open>os.Stat\<close> returns from the function.
\<close>

fun getMostRecent_loop :: "env \<Rightarrow> string \<Rightarrow> time \<Rightarrow> string list \<Rightarrow> error + string" where
  "getMostRecent_loop env max_f maxModified [] = Inr max_f"
| "getMostRecent_loop env max_f maxModified (f # files) =
    (case os_Stat env f of
       Inl err \<Rightarrow> Inl err
     | Inr fi_ModTime \<Rightarrow>
         if max_f = [] then getMostRecent_loop env f fi_ModTime files
         else if maxModified < fi_ModTime then getMostRecent_loop env f fi_ModTime files
         else getMostRecent_loop env max_f maxModified files)"

text \<open>\<^verbatim>\<open>var maxModified time.Time\<close> starts as the zero time, \<^verbatim>\<open>max\<close> as the empty string.\<close>

definition zero_time :: time where
  "zero_time = 0"

definition getMostRecent :: "env \<Rightarrow> string list \<Rightarrow> error + string" where
  "getMostRecent env files = getMostRecent_loop env [] zero_time files"

subsection \<open>Choose\<close>

text \<open>The loop that builds the menu: \<^verbatim>\<open>images += fmt.Sprintf("%d. %s\n", i+1, f)\<close>.\<close>

fun Choose_menu :: "nat \<Rightarrow> string list \<Rightarrow> string" where
  "Choose_menu i [] = []"
| "Choose_menu i (f # files) = Itoa (i + 1) @ ''. '' @ f @ [CHR 0x0A] @ Choose_menu (i + 1) files"

definition Choose :: "env \<Rightarrow> string list \<Rightarrow> world \<Rightarrow> (error + string) \<times> world" where
  "Choose env files w =
    (let question = Choose_menu 0 files @ ''Which image should we use (type number)?'';
         w1 = emit [Ask question] w
     in case ui_Ask env question of
          Inl err \<Rightarrow> (Inl err, w1)
        | Inr answer \<Rightarrow>
            (case Atoi answer of
               Inl err \<Rightarrow> (Inl err, w1)
             | Inr index \<Rightarrow>
                 if index \<le> 0 \<or> index > int (length files) then (Inl InvalidImageChosen, w1)
                 else (Inr (files ! nat (index - 1)), w1)))"

subsection \<open>getDevice\<close>

text \<open>
  Indexing a Go slice panics when the index is not below the length; the check of the
  index in \<^verbatim>\<open>getDevice\<close> is the one of the source, \<^verbatim>\<open>i < 0 || i > len(detachables)\<close>.
\<close>

definition slice_index :: "'a list \<Rightarrow> int \<Rightarrow> error + 'a" where
  "slice_index xs i = (if 0 \<le> i \<and> i < int (length xs) then Inr (xs ! nat i) else Inl PanicIndexOutOfRange)"

fun getDevice_menu :: "nat \<Rightarrow> device list \<Rightarrow> string" where
  "getDevice_menu i [] = []"
| "getDevice_menu i (d # ds) =
    Itoa (i + 1) @ ''. '' @ dev_Device d @ '' ('' @ dev_Name d @ '')'' @ [CHR 0x0A] @ getDevice_menu (i + 1) ds"

definition getDevice :: "env \<Rightarrow> FlashConfig \<Rightarrow> world \<Rightarrow> (error + device) \<times> world" where
  "getDevice env cfg w =
    (case GetDetachableDevices env of
       Inl err \<Rightarrow> (Inl err, w)
     | Inr detachables \<Rightarrow>
         if length detachables = 0 then (Inl NoDevices, w)
         else if length (cfg_Device cfg) \<noteq> 0 then
           (case find (\<lambda>d. dev_Device d = cfg_Device cfg) detachables of
              Some d \<Rightarrow> (Inr d, w)
            | None \<Rightarrow> (Inl ConfiguredDeviceNotFound, w))
         else if cfg_NotInteractive cfg then
           (if length detachables \<noteq> 1 then (Inl AmbiguousDevice, w)
            else (slice_index detachables 0, w))
         else
           (let question = ''Which device should we choose?:'' @ [CHR 0x0A] @ getDevice_menu 0 detachables;
                w1 = emit [Ask question] w
            in case ui_Ask env question of
                 Inl err \<Rightarrow> (Inl err, w1)
               | Inr answer \<Rightarrow>
                   (case Atoi answer of
                      Inl err \<Rightarrow> (Inl err, w1)
                    | Inr i0 \<Rightarrow>
                        (let i = i0 - 1
                         in if i < 0 \<or> i > int (length detachables) then (Inl InvalidSelection, w1)
                            else (slice_index detachables i, w1)))))"

subsection \<open>unmount\<close>

fun unmount_loop :: "env \<Rightarrow> string list \<Rightarrow> world \<Rightarrow> error option \<times> world" where
  "unmount_loop env [] w = (None, w)"
| "unmount_loop env (mntpnt # rest) w =
    (let w1 = emit [Say (''unmounting '' @ mntpnt)] w;
         w2 = emit [Umount mntpnt] w1
     in case exec_umount env mntpnt of
          Some err \<Rightarrow> (Some err, w2)
        | None \<Rightarrow> unmount_loop env rest w2)"

definition unmount :: "env \<Rightarrow> device \<Rightarrow> world \<Rightarrow> error option \<times> world" where
  "unmount env device = unmount_loop env (dev_Mountpoints device)"

subsection \<open>The copy primitive and the writers\<close>

text \<open>
  An \<^verbatim>\<open>io.Writer\<close> is a function on its own state \<open>'w\<close>: \<^verbatim>\<open>Write\<close> returns the number of
  bytes written and the error, if any.
\<close>

text \<open>
  Modelled from the spec: \<^verbatim>\<open>utils.CopyWithProgress(ctx, ui, writer, reader)\<close> is declared in
  pkg/utils, outside flash.go. The spec gives it as
  \<^verbatim>\<open>copy(context, writer, reader) -> (bytesCopied, error)\<close>: one sequential pass in chunks, each
  chunk written before the next is read, stopping at the end of the source or at the first
  error, which it returns with the count of the bytes copied so far; its progress reports
  do not alter the byte stream and are left out of the trace. The context of both calls is
  \<^verbatim>\<open>context.Background()\<close>, which is never cancelled. What the count holds after a write
  that failed part-way is not said; here it includes the bytes which that write reports as
  written, as the count of \<^verbatim>\<open>io.Copy\<close> does.
\<close>

fun CopyWithProgress ::
  "('w \<Rightarrow> byte list \<Rightarrow> (nat \<times> error option) \<times> 'w) \<Rightarrow> 'w \<Rightarrow> byte list list \<Rightarrow> error option
     \<Rightarrow> (nat \<times> error option) \<times> 'w" where
  "CopyWithProgress wr w [] ending = ((0, ending), w)"
| "CopyWithProgress wr w (c # cs) ending =
    (case wr w c of
       ((nw, Some err), w1) \<Rightarrow> ((nw, Some err), w1)
     | ((nw, None), w1) \<Rightarrow>
         if nw \<noteq> length c then ((nw, Some ErrShortWrite), w1)
         else
           (case CopyWithProgress wr w1 cs ending of
              ((n, r), w2) \<Rightarrow> ((nw + n, r), w2)))"

text \<open>
  The content of a file after a chunk is written at an offset. In \<^verbatim>\<open>flash\<close> the writes start
  at offset 0 and follow each other, so the offset never lies beyond the end.
\<close>

definition overwrite :: "byte list \<Rightarrow> nat \<Rightarrow> byte list \<Rightarrow> byte list" where
  "overwrite content off c = take off content @ c @ drop (off + length c) content"

text \<open>
  \<^verbatim>\<open>Write\<close> of the open device file; the state is the world and the file offset. A write that
  fails may be short: the first \<open>n\<close> bytes of the chunk are on the device, the offset has
  moved by as many, and \<open>n\<close> is returned with the error.
\<close>

definition File_Write ::
  "env \<Rightarrow> string \<Rightarrow> world \<times> nat \<Rightarrow> byte list \<Rightarrow> (nat \<times> error option) \<times> (world \<times> nat)" where
  "File_Write env path s c =
    (case s of (w, off) \<Rightarrow>
       (let w1 = emit [WriteFile path off c] w
        in case write_fault env path off c of
             Some (n, err) \<Rightarrow>
               ((length (take n c), Some err),
                (w1\<lparr>disk := (disk w1)(path := overwrite (disk w1 path) off (take n c))\<rparr>,
                 off + length (take n c)))
           | None \<Rightarrow>
               ((length c, None),
                (w1\<lparr>disk := (disk w1)(path := overwrite (disk w1 path) off c)\<rparr>, off + length c))))"

text \<open>
  \<^verbatim>\<open>Write\<close> of \<^verbatim>\<open>io.MultiWriter(output, checksummer)\<close>: the device first, and the hash only when
  the device took the whole chunk without error. The hash is the bytes written to it so
  far; its \<^verbatim>\<open>Write\<close> never fails.
\<close>

definition MultiWriter_Write ::
  "env \<Rightarrow> string \<Rightarrow> (world \<times> nat) \<times> byte list \<Rightarrow> byte list
     \<Rightarrow> (nat \<times> error option) \<times> ((world \<times> nat) \<times> byte list)" where
  "MultiWriter_Write env path s c =
    (case s of (output, checksummer) \<Rightarrow>
       (case File_Write env path output c of
          ((n, Some err), output1) \<Rightarrow> ((n, Some err), (output1, checksummer))
        | ((n, None), output1) \<Rightarrow>
            if n \<noteq> length c then ((n, Some ErrShortWrite), (output1, checksummer))
            else ((length c, None), (output1, checksummer @ c))))"

definition Hash_Write :: "byte list \<Rightarrow> byte list \<Rightarrow> (nat \<times> error option) \<times> byte list" where
  "Hash_Write checksummer c = ((length c, None), checksummer @ c)"

text \<open>
  \<^verbatim>\<open>io.LimitedReader{R: r, N: n}\<close>: a read is cut to the \<open>N\<close> bytes that remain, and once
  \<open>N \<le> 0\<close> every read is \<^verbatim>\<open>io.EOF\<close> without asking \<open>R\<close>.
\<close>

fun limit_reads :: "nat \<Rightarrow> byte list list \<Rightarrow> byte list list" where
  "limit_reads n [] = []"
| "limit_reads n (c # cs) = (if n = 0 then [] else take n c # limit_reads (n - length c) cs)"

definition LimitedReader :: "reader \<Rightarrow> int \<Rightarrow> reader" where
  "LimitedReader r n =
    (if n \<le> 0 then \<lparr>reads = [], rerr = None\<rparr>
     else \<lparr>reads = limit_reads (nat n) (reads r),
           rerr = (if length (concat (reads r)) < nat n then rerr r else None)\<rparr>)"

subsection \<open>flash and verify\<close>

text \<open>
  The deferred calls of \<^verbatim>\<open>flash\<close> run when it returns, last deferred first:
  \<^verbatim>\<open>output.Close()\<close> (deferred only once the device is open), then \<^verbatim>\<open>input.Close()\<close>.
  The \<^verbatim>\<open>err\<close> of \<^verbatim>\<open>CopyWithProgress\<close> is bound and not read again.
\<close>

definition flash ::
  "env \<Rightarrow> FlashConfig \<Rightarrow> reader \<Rightarrow> device \<Rightarrow> world \<Rightarrow> (error + FlashResult) \<times> world" where
  "flash env cfg input device w =
    (let path = dev_Device device;
         w1 = emit [OpenFile path] w
     in case os_OpenFile env (trace w) path of
          Some err \<Rightarrow> (Inl err, emit [CloseImage] w1)
        | None \<Rightarrow>
            if cfg_Verify cfg then
              (case CopyWithProgress (MultiWriter_Write env path) ((w1, 0), []) (reads input) (rerr input) of
                 ((totaldata, err), ((w2, off), checksummer)) \<Rightarrow>
                   (Inr \<lparr>res_Sum = newHasher env checksummer, res_BytesWritten = of_nat totaldata\<rparr>,
                    emit [CloseFile path, CloseImage] w2))
            else
              (case CopyWithProgress (File_Write env path) (w1, 0) (reads input) (rerr input) of
                 ((totaldata, err), (w2, off)) \<Rightarrow>
                   (Inr \<lparr>res_Sum = [], res_BytesWritten = of_nat totaldata\<rparr>,
                    emit [CloseFile path, CloseImage] w2)))"

text \<open>
  \<^verbatim>\<open>verify\<close> reads the device through \<^verbatim>\<open>io.LimitedReader\<close> with \<^verbatim>\<open>N: int64(res.BytesWritten)\<close>
  and copies into a fresh hash. Every chunk of the limited stream is read, since the hash
  takes every chunk.
\<close>

definition verify :: "env \<Rightarrow> FlashResult \<Rightarrow> device \<Rightarrow> world \<Rightarrow> error option \<times> world" where
  "verify env res dev w =
    (let path = dev_Device dev;
         w1 = emit [OpenFile path] w
     in case os_OpenFile env (trace w) path of
          Some err \<Rightarrow> (Some err, w1)
        | None \<Rightarrow>
            (let input = device_read env path (disk w1 path);
                 limitedInput = LimitedReader input (sint (res_BytesWritten res))
             in case CopyWithProgress Hash_Write [] (reads limitedInput) (rerr limitedInput) of
                  ((n, err), checksummer) \<Rightarrow>
                    (let w2 = emit (map (ReadFile path) (reads limitedInput) @ [CloseFile path]) w1
                     in case err of
                          Some e \<Rightarrow> (Some e, w2)
                        | None \<Rightarrow>
                            if newHasher env checksummer \<noteq> res_Sum res then (Some ChecksumsDifferent, w2)
                            else (None, w2))))"

subsection \<open>getSource and Flash\<close>

definition getSource :: "env \<Rightarrow> FlashConfig \<Rightarrow> world \<Rightarrow> (error + reader) \<times> world" where
  "getSource env cfg w =
    (if length (cfg_Image cfg) \<noteq> 0 then (imageOpener_Open env (cfg_Image cfg), w)
     else
       (let potentials = GetImageFilesInCurrentDir env
        in if length potentials = 0 then (Inl CantFindSource, w)
           else
             (case (if cfg_NotInteractive cfg then (getMostRecent env potentials, w)
                    else Choose env potentials w) of
                (Inl err, w1) \<Rightarrow> (Inl err, w1)
              | (Inr chosen, w1) \<Rightarrow>
                  (imageOpener_Open env chosen, emit [Say (''using image '' @ chosen)] w1))))"

text \<open>Lines 82 to 97 of \<^verbatim>\<open>Flash\<close>: unmount, flash, sync, and the verification, whose result
  is not bound.\<close>

definition Flash_write :: "env \<Rightarrow> FlashConfig \<Rightarrow> reader \<Rightarrow> device \<Rightarrow> world \<Rightarrow> error option \<times> world" where
  "Flash_write env cfg imageToFlash dev w =
    (case unmount env dev w of
       (Some err, w1) \<Rightarrow> (Some err, w1)
     | (None, w1) \<Rightarrow>
         (case flash env cfg imageToFlash dev w1 of
            (Inl err, w2) \<Rightarrow> (Some err, w2)
          | (Inr res, w2) \<Rightarrow>
              (let w3 = emit [Sync] w2
               in if length (res_Sum res) \<noteq> 0 then (None, snd (verify env res dev w3))
                  else (None, w3))))"

text \<open>Lines 65 to 80 of \<^verbatim>\<open>Flash\<close>: the device, the announcement and the confirmation.\<close>

definition Flash_device :: "env \<Rightarrow> FlashConfig \<Rightarrow> reader \<Rightarrow> world \<Rightarrow> error option \<times> world" where
  "Flash_device env cfg imageToFlash w =
    (case getDevice env cfg w of
       (Inl err, w1) \<Rightarrow> (Some err, w1)
     | (Inr dev, w1) \<Rightarrow>
         (let w2 = emit [Say (''Going to flash to '' @ dev_Device dev @ ''.'')] w1
          in if \<not> cfg_NotInteractive cfg then
               (let w3 = emit [Ask ''Are you sure?''] w2
                in case ui_Ask env ''Are you sure?'' of
                     Inl err \<Rightarrow> (Some err, w3)
                   | Inr answer0 \<Rightarrow>
                       (let answer = strings_TrimSpace env (strings_ToLower env answer0)
                        in if \<not> HasPrefix ''yes'' answer then (Some CanceledByUser, w3)
                           else Flash_write env cfg imageToFlash dev w3))
             else Flash_write env cfg imageToFlash dev w2))"

text \<open>\<^verbatim>\<open>Flash\<close>: once the source is open, \<^verbatim>\<open>defer imageToFlash.Close()\<close> closes it on every
  return.\<close>

definition Flash :: "env \<Rightarrow> FlashConfig \<Rightarrow> world \<Rightarrow> error option \<times> world" where
  "Flash env cfg w =
    (case getSource env cfg w of
       (Inl err, w1) \<Rightarrow> (Some err, w1)
     | (Inr imageToFlash, w1) \<Rightarrow>
         (case Flash_device env cfg imageToFlash w1 of
            (r, w2) \<Rightarrow> (r, emit [CloseImage] w2)))"

subsection \<open>What a trace shows\<close>

text \<open>The effects that change a device or its mounts: the \<^verbatim>\<open>umount\<close> command and a write.\<close>

fun alters_device :: "event \<Rightarrow> bool" where
  "alters_device (Umount m) = True"
| "alters_device (WriteFile p off c) = True"
| "alters_device e = False"

fun is_WriteFile :: "event \<Rightarrow> bool" where
  "is_WriteFile (WriteFile p off c) = True"
| "is_WriteFile e = False"

fun is_ReadFile :: "event \<Rightarrow> bool" where
  "is_ReadFile (ReadFile p c) = True"
| "is_ReadFile e = False"

text \<open>
  From \<open>w\<close> to \<open>w'\<close> nothing was unmounted or written: the trace grew by effects of other
  kinds only, and every device holds what it held.
\<close>

definition nothing_written :: "world \<Rightarrow> world \<Rightarrow> bool" where
  "nothing_written w w' =
     (disk w' = disk w \<and> (\<exists>evs. trace w' = trace w @ evs \<and> list_all (\<lambda>e. \<not> alters_device e) evs))"

subsection \<open>A concrete environment\<close>

text \<open>
  One card reader \<^verbatim>\<open>/dev/sdb\<close> with three mounted partitions, of which the second is busy,
  three image files of which the two newer ones have the same modification time, an image
  that is read in two chunks, and a toy digest of two bytes.
\<close>

definition example_device :: device where
  "example_device =
     \<lparr>dev_Device = ''/dev/sdb'', dev_Name = ''USB Disk'',
      dev_Mountpoints = [''/mnt/x'', ''/mnt/y'', ''/mnt/z'']\<rparr>"

definition example_ModTime :: "string \<Rightarrow> time" where
  "example_ModTime f = (if f = ''a.img'' then 100 else 200)"

definition example_image :: reader where
  "example_image = \<lparr>reads = [[1, 2], [3]], rerr = None\<rparr>"

definition example_digest :: "byte list \<Rightarrow> byte list" where
  "example_digest bs = [of_nat (length bs), foldr (+) bs 0]"

text \<open>
  On a string of ASCII bytes, \<^verbatim>\<open>strings.ToLower\<close> maps A to Z to a to z and
  \<^verbatim>\<open>strings.TrimSpace\<close> strips the six ASCII white-space bytes from both ends. The
  environments below are given these two functions, and their users reply in ASCII.
\<close>

definition ascii_ToLower_char :: "char \<Rightarrow> char" where
  "ascii_ToLower_char c =
    (if 65 \<le> (of_char c :: nat) \<and> (of_char c :: nat) \<le> 90 then char_of ((of_char c :: nat) + 32) else c)"

definition ascii_ToLower :: "string \<Rightarrow> string" where
  "ascii_ToLower s = map ascii_ToLower_char s"

text \<open>Tab, line feed, vertical tab, form feed, carriage return and space.\<close>

definition ascii_is_space :: "char \<Rightarrow> bool" where
  "ascii_is_space c = ((of_char c :: nat) \<in> {9, 10, 11, 12, 13, 32})"

definition ascii_TrimSpace :: "string \<Rightarrow> string" where
  "ascii_TrimSpace s = rev (dropWhile ascii_is_space (rev (dropWhile ascii_is_space s)))"

definition example_env :: env where
  "example_env =
     \<lparr>ui_Ask = (\<lambda>q. Inr []),
      GetImageFilesInCurrentDir = [''a.img'', ''b.img'', ''c.img''],
      os_Stat = (\<lambda>f. Inr (example_ModTime f)),
      imageOpener_Open = (\<lambda>p. Inr example_image),
      GetDetachableDevices = Inr [example_device],
      exec_umount = (\<lambda>m. if m = ''/mnt/y'' then Some (External ''target is busy'') else None),
      os_OpenFile = (\<lambda>t p. None),
      write_fault = (\<lambda>p off c. None),
      device_read = (\<lambda>p content. \<lparr>reads = [content], rerr = None\<rparr>),
      newHasher = example_digest,
      strings_ToLower = ascii_ToLower,
      strings_TrimSpace = ascii_TrimSpace\<rparr>"

definition example_config :: FlashConfig where
  "example_config = \<lparr>cfg_Image = [], cfg_Device = [], cfg_NotInteractive = True, cfg_Verify = True\<rparr>"

definition example_world :: world where
  "example_world = \<lparr>trace = [], disk = (\<lambda>p. [9, 9, 9, 9, 9])\<rparr>"

definition second_device :: device where
  "second_device = \<lparr>dev_Device = ''/dev/sdc'', dev_Name = ''SD Card'', dev_Mountpoints = []\<rparr>"

definition two_devices_env :: env where
  "two_devices_env = example_env\<lparr>GetDetachableDevices := Inr [example_device, second_device]\<rparr>"

text \<open>An interactive run with image and device configured: the only question is the
  confirmation. One user answers with an empty line, one with \<^verbatim>\<open>" Ye "\<close>, one with \<^verbatim>\<open>"no"\<close>.\<close>

definition interactive_config :: FlashConfig where
  "interactive_config =
     \<lparr>cfg_Image = ''a.img'', cfg_Device = ''/dev/sdb'', cfg_NotInteractive = False, cfg_Verify = True\<rparr>"

definition ye_env :: env where
  "ye_env = example_env\<lparr>ui_Ask := (\<lambda>q. Inr '' Ye '')\<rparr>"

definition no_env :: env where
  "no_env = example_env\<lparr>ui_Ask := (\<lambda>q. Inr ''no'')\<rparr>"

text \<open>The same reader with nothing busy, on a host whose reads of the device deliver the
  first byte as 0 (the image starts with 1: one bit differs).\<close>

definition idle_env :: env where
  "idle_env = example_env\<lparr>exec_umount := (\<lambda>m. None)\<rparr>"

definition corrupting_env :: env where
  "corrupting_env = idle_env\<lparr>device_read := (\<lambda>p content. \<lparr>reads = [content[0 := 0]], rerr = None\<rparr>)\<rparr>"

text \<open>A device whose write at offset 2 fails with nothing written.\<close>

definition faulty_env :: env where
  "faulty_env =
     idle_env\<lparr>write_fault := (\<lambda>p off c. if off = 2 then Some (0, External ''input/output error'') else None)\<rparr>"

text \<open>A device whose first write fails after one byte of the chunk.\<close>

definition short_env :: env where
  "short_env =
     idle_env\<lparr>write_fault := (\<lambda>p off c. if off = 0 then Some (1, External ''input/output error'') else None)\<rparr>"

text \<open>The states of the non-interactive run of \<open>example_config\<close> in an environment: after
  the selections and the announcement, after unmounting, after flashing.\<close>

definition run_selected :: world where
  "run_selected = emit [Say ''using image b.img'', Say ''Going to flash to /dev/sdb.''] example_world"

definition run_unmounted :: "env \<Rightarrow> world" where
  "run_unmounted env = snd (unmount env example_device run_selected)"

definition run_flashed :: "env \<Rightarrow> world" where
  "run_flashed env = snd (flash env example_config example_image example_device (run_unmounted env))"

text \<open>An interactive run with no device configured, where the user types 2 at every menu.\<close>

definition prompting_config :: FlashConfig where
  "prompting_config =
     \<lparr>cfg_Image = ''a.img'', cfg_Device = [], cfg_NotInteractive = False, cfg_Verify = True\<rparr>"

definition two_env :: env where
  "two_env = example_env\<lparr>ui_Ask := (\<lambda>q. Inr ''2'')\<rparr>"

text \<open>The run without verification.\<close>

definition plain_config :: FlashConfig where
  "plain_config = example_config\<lparr>cfg_Verify := False\<rparr>"

section \<open>Properties\<close>

declare Itoa.simps [simp del]

lemma trace_emit [simp]: "trace (emit evs w) = trace w @ evs"
  by (simp add: emit_def)

lemma disk_emit [simp]: "disk (emit evs w) = disk w"
  by (simp add: emit_def)

lemma emit_emit: "emit evs2 (emit evs1 w) = emit (evs1 @ evs2) w"
  by (simp add: emit_def)

subsection \<open>The most recent image\<close>

text \<open>
  The loop keeps \<open>max_f\<close> unless a later file is strictly newer than everything before it;
  the file it returns splits the list into strictly older files before it and files that
  are not newer after it.
\<close>

lemma getMostRecent_loop_spec:
  assumes "max_f \<noteq> []" "[] \<notin> set files" "\<And>f. f \<in> set files \<Longrightarrow> os_Stat env f = Inr (mt f)"
  shows "(getMostRecent_loop env max_f t files = Inr max_f \<and> (\<forall>g\<in>set files. mt g \<le> t)) \<or>
         (\<exists>pre r post. files = pre @ r # post \<and> getMostRecent_loop env max_f t files = Inr r \<and> t < mt r \<and>
             (\<forall>g\<in>set pre. mt g < mt r) \<and> (\<forall>g\<in>set post. mt g \<le> mt r))"
  using assms
proof (induction files arbitrary: max_f t)
  case Nil
  then show ?case by simp
next
  case (Cons f fs)
  have st: "os_Stat env f = Inr (mt f)" using Cons.prems by simp
  have fne: "f \<noteq> []" and fsne: "[] \<notin> set fs" using Cons.prems by auto
  have fs: "\<And>g. g \<in> set fs \<Longrightarrow> os_Stat env g = Inr (mt g)" using Cons.prems by simp
  show ?case
  proof (cases "t < mt f")
    case True
    have step: "getMostRecent_loop env max_f t (f # fs) = getMostRecent_loop env f (mt f) fs"
      using st True Cons.prems(1) by simp
    from Cons.IH [OF fne fsne fs, of "mt f"]
    consider (keep) "getMostRecent_loop env f (mt f) fs = Inr f" "\<forall>g\<in>set fs. mt g \<le> mt f"
      | (later) pre r post where "fs = pre @ r # post" "getMostRecent_loop env f (mt f) fs = Inr r"
          "mt f < mt r" "\<forall>g\<in>set pre. mt g < mt r" "\<forall>g\<in>set post. mt g \<le> mt r"
      by blast
    then show ?thesis
    proof cases
      case keep
      have "f # fs = [] @ f # fs \<and> getMostRecent_loop env max_f t (f # fs) = Inr f \<and> t < mt f \<and>
             (\<forall>g\<in>set []. mt g < mt f) \<and> (\<forall>g\<in>set fs. mt g \<le> mt f)"
        using keep step True by simp
      then show ?thesis by blast
    next
      case later
      have "f # fs = (f # pre) @ r # post \<and> getMostRecent_loop env max_f t (f # fs) = Inr r \<and> t < mt r \<and>
             (\<forall>g\<in>set (f # pre). mt g < mt r) \<and> (\<forall>g\<in>set post. mt g \<le> mt r)"
        using later step True by simp
      then show ?thesis by blast
    qed
  next
    case False
    have step: "getMostRecent_loop env max_f t (f # fs) = getMostRecent_loop env max_f t fs"
      using st False Cons.prems(1) by simp
    from Cons.IH [OF Cons.prems(1) fsne fs, of t]
    consider (keep) "getMostRecent_loop env max_f t fs = Inr max_f" "\<forall>g\<in>set fs. mt g \<le> t"
      | (later) pre r post where "fs = pre @ r # post" "getMostRecent_loop env max_f t fs = Inr r"
          "t < mt r" "\<forall>g\<in>set pre. mt g < mt r" "\<forall>g\<in>set post. mt g \<le> mt r"
      by blast
    then show ?thesis
    proof cases
      case keep
      then show ?thesis using step False by simp
    next
      case later
      have "f # fs = (f # pre) @ r # post \<and> getMostRecent_loop env max_f t (f # fs) = Inr r \<and> t < mt r \<and>
             (\<forall>g\<in>set (f # pre). mt g < mt r) \<and> (\<forall>g\<in>set post. mt g \<le> mt r)"
        using later step False by simp
      then show ?thesis by blast
    qed
  qed
qed

lemma getMostRecent_first_newest:
  assumes "files \<noteq> []" "[] \<notin> set files" "\<And>f. f \<in> set files \<Longrightarrow> os_Stat env f = Inr (mt f)"
  shows "\<exists>pre r post. files = pre @ r # post \<and> getMostRecent env files = Inr r \<and>
             (\<forall>g\<in>set pre. mt g < mt r) \<and> (\<forall>g\<in>set post. mt g \<le> mt r)"
proof -
  obtain f fs where files: "files = f # fs" using assms(1) by (cases files) auto
  have st: "os_Stat env f = Inr (mt f)" using assms(3) files by simp
  have fne: "f \<noteq> []" and fsne: "[] \<notin> set fs" using assms(2) files by auto
  have fs: "\<And>g. g \<in> set fs \<Longrightarrow> os_Stat env g = Inr (mt g)" using assms(3) files by simp
  have step: "getMostRecent env files = getMostRecent_loop env f (mt f) fs"
    by (simp add: getMostRecent_def files st)
  from getMostRecent_loop_spec [OF fne fsne fs, of "mt f"]
  consider (keep) "getMostRecent_loop env f (mt f) fs = Inr f" "\<forall>g\<in>set fs. mt g \<le> mt f"
    | (later) pre r post where "fs = pre @ r # post" "getMostRecent_loop env f (mt f) fs = Inr r"
        "mt f < mt r" "\<forall>g\<in>set pre. mt g < mt r" "\<forall>g\<in>set post. mt g \<le> mt r"
    by blast
  then show ?thesis
  proof cases
    case keep
    have "files = [] @ f # fs \<and> getMostRecent env files = Inr f \<and>
           (\<forall>g\<in>set []. mt g < mt f) \<and> (\<forall>g\<in>set fs. mt g \<le> mt f)"
      using keep step files by simp
    then show ?thesis by blast
  next
    case later
    have "files = (f # pre) @ r # post \<and> getMostRecent env files = Inr r \<and>
           (\<forall>g\<in>set (f # pre). mt g < mt r) \<and> (\<forall>g\<in>set post. mt g \<le> mt r)"
      using later step files by simp
    then show ?thesis by blast
  qed
qed

text \<open>
  Claim C5. In a non-interactive run with no image configured, over a non-empty list of
  candidates (file names, so none of them is the empty string) whose modification times
  \<open>mt\<close> can all be read, \<^verbatim>\<open>getMostRecent\<close> returns a candidate \<open>r\<close> such that every
  candidate before it in the list is strictly older and every candidate after it is not
  newer: the greatest modification time wins, and among equals the first one seen.
  \<^verbatim>\<open>getSource\<close> announces that candidate and opens it, without asking.
\<close>

theorem getSource_picks_first_most_recent:
  assumes "cfg_Image cfg = []" and "cfg_NotInteractive cfg"
    and "GetImageFilesInCurrentDir env \<noteq> []"
    and "[] \<notin> set (GetImageFilesInCurrentDir env)"
    and "\<And>f. f \<in> set (GetImageFilesInCurrentDir env) \<Longrightarrow> os_Stat env f = Inr (mt f)"
  shows "\<exists>pre r post. GetImageFilesInCurrentDir env = pre @ r # post \<and>
           (\<forall>g\<in>set pre. mt g < mt r) \<and> (\<forall>g\<in>set post. mt g \<le> mt r) \<and>
           getMostRecent env (GetImageFilesInCurrentDir env) = Inr r \<and>
           getSource env cfg w = (imageOpener_Open env r, emit [Say (''using image '' @ r)] w)"
proof -
  from getMostRecent_first_newest [OF assms(3) assms(4) assms(5)]
  obtain pre r post where r: "GetImageFilesInCurrentDir env = pre @ r # post"
    "getMostRecent env (GetImageFilesInCurrentDir env) = Inr r"
    "\<forall>g\<in>set pre. mt g < mt r" "\<forall>g\<in>set post. mt g \<le> mt r"
    by blast
  have "getSource env cfg w = (imageOpener_Open env r, emit [Say (''using image '' @ r)] w)"
    using assms(1) assms(2) assms(3) r(2) by (simp add: getSource_def)
  with r show ?thesis by blast
qed

theorem getSource_picks_first_most_recent_witness:
  "getMostRecent example_env [''a.img'', ''b.img'', ''c.img''] = Inr ''b.img'' \<and>
   (\<exists>pre r post. [''a.img'', ''b.img'', ''c.img''] = pre @ r # post \<and>
      (\<forall>g\<in>set pre. example_ModTime g < example_ModTime r) \<and>
      (\<forall>g\<in>set post. example_ModTime g \<le> example_ModTime r) \<and>
      getMostRecent example_env [''a.img'', ''b.img'', ''c.img''] = Inr r \<and>
      getSource example_env example_config example_world =
        (Inr example_image, emit [Say (''using image '' @ r)] example_world))"
proof -
  have files: "GetImageFilesInCurrentDir example_env = [''a.img'', ''b.img'', ''c.img'']"
    by (simp add: example_env_def)
  have "getMostRecent example_env [''a.img'', ''b.img'', ''c.img''] = Inr ''b.img''"
    by (simp add: getMostRecent_def example_env_def example_ModTime_def)
  moreover have "\<exists>pre r post. GetImageFilesInCurrentDir example_env = pre @ r # post \<and>
      (\<forall>g\<in>set pre. example_ModTime g < example_ModTime r) \<and>
      (\<forall>g\<in>set post. example_ModTime g \<le> example_ModTime r) \<and>
      getMostRecent example_env (GetImageFilesInCurrentDir example_env) = Inr r \<and>
      getSource example_env example_config example_world =
        (imageOpener_Open example_env r, emit [Say (''using image '' @ r)] example_world)"
    by (rule getSource_picks_first_most_recent [of example_config example_env example_ModTime example_world])
       (simp_all add: example_env_def example_config_def)
  moreover have "\<And>r. imageOpener_Open example_env r = Inr example_image"
    by (simp add: example_env_def)
  ultimately show ?thesis by (simp add: files)
qed

subsection \<open>Unmounting\<close>

lemma unmount_loop_spec:
  "unmount_loop env ms w = (r, w') \<Longrightarrow>
     \<exists>tried rest. ms = tried @ rest \<and>
        trace w' = trace w @ concat (map (\<lambda>m. [Say (''unmounting '' @ m), Umount m]) tried) \<and>
        disk w' = disk w \<and>
        (case r of
           None \<Rightarrow> rest = [] \<and> (\<forall>m\<in>set tried. exec_umount env m = None)
         | Some e \<Rightarrow> tried \<noteq> [] \<and> exec_umount env (last tried) = Some e \<and>
                     (\<forall>m\<in>set (butlast tried). exec_umount env m = None))"
proof (induction ms arbitrary: w)
  case Nil
  then show ?case by auto
next
  case (Cons m ms)
  let ?w2 = "emit [Umount m] (emit [Say (''unmounting '' @ m)] w)"
  show ?case
  proof (cases "exec_umount env m")
    case (Some e)
    then have "r = Some e" "w' = ?w2" using Cons.prems by (auto simp: Let_def)
    then have "m # ms = [m] @ ms \<and>
        trace w' = trace w @ concat (map (\<lambda>m. [Say (''unmounting '' @ m), Umount m]) [m]) \<and>
        disk w' = disk w \<and>
        (case r of
           None \<Rightarrow> ms = [] \<and> (\<forall>m\<in>set [m]. exec_umount env m = None)
         | Some e \<Rightarrow> [m] \<noteq> [] \<and> exec_umount env (last [m]) = Some e \<and>
                     (\<forall>m\<in>set (butlast [m]). exec_umount env m = None))"
      using Some by simp
    then show ?thesis by blast
  next
    case None
    then have "unmount_loop env ms ?w2 = (r, w')" using Cons.prems by (simp add: Let_def)
    from Cons.IH [OF this] obtain tried rest where
      t: "ms = tried @ rest"
        "trace w' = trace ?w2 @ concat (map (\<lambda>m. [Say (''unmounting '' @ m), Umount m]) tried)"
        "disk w' = disk ?w2"
        "(case r of
           None \<Rightarrow> rest = [] \<and> (\<forall>m\<in>set tried. exec_umount env m = None)
         | Some e \<Rightarrow> tried \<noteq> [] \<and> exec_umount env (last tried) = Some e \<and>
                     (\<forall>m\<in>set (butlast tried). exec_umount env m = None))"
      by blast
    have "m # ms = (m # tried) @ rest \<and>
        trace w' = trace w @ concat (map (\<lambda>m. [Say (''unmounting '' @ m), Umount m]) (m # tried)) \<and>
        disk w' = disk w \<and>
        (case r of
           None \<Rightarrow> rest = [] \<and> (\<forall>m\<in>set (m # tried). exec_umount env m = None)
         | Some e \<Rightarrow> m # tried \<noteq> [] \<and> exec_umount env (last (m # tried)) = Some e \<and>
                     (\<forall>m\<in>set (butlast (m # tried)). exec_umount env m = None))"
      using t None by (auto split: option.splits)
    then show ?thesis by blast
  qed
qed

text \<open>
  Claim C6. \<^verbatim>\<open>unmount\<close> goes through the mountpoints of the device in list order. The
  mountpoints split into the ones it tried and the rest, which it left alone; for each one
  tried the trace holds the announcement and then the \<^verbatim>\<open>umount\<close> command, and nothing else
  (no mount command, no write; the devices keep their content). When it returns no error
  it tried all of them and all succeeded; when it returns an error, that is the error of
  the last one tried, and all the ones before had succeeded.
\<close>

theorem unmount_in_order_until_first_failure:
  "unmount env dev w = (r, w') \<Longrightarrow>
     \<exists>tried rest. dev_Mountpoints dev = tried @ rest \<and>
        trace w' = trace w @ concat (map (\<lambda>m. [Say (''unmounting '' @ m), Umount m]) tried) \<and>
        disk w' = disk w \<and>
        (case r of
           None \<Rightarrow> rest = [] \<and> (\<forall>m\<in>set tried. exec_umount env m = None)
         | Some e \<Rightarrow> tried \<noteq> [] \<and> exec_umount env (last tried) = Some e \<and>
                     (\<forall>m\<in>set (butlast tried). exec_umount env m = None))"
  unfolding unmount_def by (rule unmount_loop_spec)

theorem unmount_in_order_until_first_failure_witness:
  "unmount example_env example_device example_world =
     (Some (External ''target is busy''),
      emit [Say ''unmounting /mnt/x'', Umount ''/mnt/x'', Say ''unmounting /mnt/y'', Umount ''/mnt/y'']
        example_world) \<and>
   (\<exists>tried rest. [''/mnt/x'', ''/mnt/y'', ''/mnt/z''] = tried @ rest \<and>
      trace (emit [Say ''unmounting /mnt/x'', Umount ''/mnt/x'', Say ''unmounting /mnt/y'', Umount ''/mnt/y'']
               example_world) =
        trace example_world @ concat (map (\<lambda>m. [Say (''unmounting '' @ m), Umount m]) tried) \<and>
      tried \<noteq> [] \<and> exec_umount example_env (last tried) = Some (External ''target is busy'') \<and>
      (\<forall>m\<in>set (butlast tried). exec_umount example_env m = None))"
proof -
  have run: "unmount example_env example_device example_world =
     (Some (External ''target is busy''),
      emit [Say ''unmounting /mnt/x'', Umount ''/mnt/x'', Say ''unmounting /mnt/y'', Umount ''/mnt/y'']
        example_world)"
    by (simp add: unmount_def example_env_def example_device_def emit_def)
  from unmount_in_order_until_first_failure [OF run]
  show ?thesis using run by (simp add: example_device_def)
qed

subsection \<open>Selections write nothing\<close>

lemma nothing_written_refl: "nothing_written w w"
  by (simp add: nothing_written_def)

lemma nothing_written_trans:
  "nothing_written w w1 \<Longrightarrow> nothing_written w1 w2 \<Longrightarrow> nothing_written w w2"
  by (auto simp: nothing_written_def)

lemma nothing_written_emit:
  "list_all (\<lambda>e. \<not> alters_device e) evs \<Longrightarrow> nothing_written w (emit evs w)"
  by (auto simp: nothing_written_def)

lemma Choose_nothing_written: "Choose env files w = (r, w') \<Longrightarrow> nothing_written w w'"
  by (auto simp: Choose_def Let_def nothing_written_emit split: sum.splits if_splits)

lemma getDevice_nothing_written: "getDevice env cfg w = (r, w') \<Longrightarrow> nothing_written w w'"
  by (auto simp: getDevice_def Let_def nothing_written_emit nothing_written_refl
           split: sum.splits if_splits option.splits)

lemma getSource_nothing_written: "getSource env cfg w = (r, w') \<Longrightarrow> nothing_written w w'"
  by (auto simp: getSource_def Let_def nothing_written_emit nothing_written_refl
           split: sum.splits if_splits prod.splits
           dest: Choose_nothing_written
           intro: nothing_written_trans [OF Choose_nothing_written nothing_written_emit])

text \<open>
  Claim C4. In a non-interactive run with no device configured: when the enumeration holds
  more than one device, \<^verbatim>\<open>getDevice\<close> fails with "ambiguous device" without any effect, and
  \<^verbatim>\<open>Flash\<close> fails having unmounted and written nothing (with that very error once the source
  is open); when the enumeration holds exactly one device, \<^verbatim>\<open>getDevice\<close> returns it without
  any effect, so without a prompt.
\<close>

theorem getDevice_ambiguous_or_single:
  assumes "cfg_NotInteractive cfg" and "cfg_Device cfg = []"
    and "GetDetachableDevices env = Inr detachables"
  shows "(1 < length detachables \<longrightarrow>
            getDevice env cfg w = (Inl AmbiguousDevice, w) \<and>
            fst (Flash env cfg w) \<noteq> None \<and>
            nothing_written w (snd (Flash env cfg w)) \<and>
            (\<forall>imageToFlash w1. getSource env cfg w = (Inr imageToFlash, w1) \<longrightarrow>
               Flash env cfg w = (Some AmbiguousDevice, emit [CloseImage] w1))) \<and>
         (length detachables = 1 \<longrightarrow> getDevice env cfg w = (Inr (hd detachables), w))"
proof (intro conjI impI)
  assume many: "1 < length detachables"
  have amb: "\<And>w. getDevice env cfg w = (Inl AmbiguousDevice, w)"
    using assms many by (cases detachables) (simp_all add: getDevice_def)
  show "getDevice env cfg w = (Inl AmbiguousDevice, w)" by (rule amb)
  obtain r w1 where src: "getSource env cfg w = (r, w1)" by (cases "getSource env cfg w")
  have q: "nothing_written w w1" using src by (rule getSource_nothing_written)
  show "fst (Flash env cfg w) \<noteq> None"
    using src amb by (cases r) (simp_all add: Flash_def Flash_device_def)
  show "nothing_written w (snd (Flash env cfg w))"
  proof (cases r)
    case (Inl e)
    then show ?thesis using src q by (simp add: Flash_def)
  next
    case (Inr img)
    then have "snd (Flash env cfg w) = emit [CloseImage] w1"
      using src amb by (simp add: Flash_def Flash_device_def)
    then show ?thesis
      using nothing_written_trans [OF q nothing_written_emit [of "[CloseImage]" w1]] by simp
  qed
  show "\<forall>imageToFlash w1. getSource env cfg w = (Inr imageToFlash, w1) \<longrightarrow>
               Flash env cfg w = (Some AmbiguousDevice, emit [CloseImage] w1)"
    using amb by (simp add: Flash_def Flash_device_def)
next
  assume one: "length detachables = 1"
  then obtain d where "detachables = [d]" by (cases detachables) auto
  then show "getDevice env cfg w = (Inr (hd detachables), w)"
    using assms by (simp add: getDevice_def slice_index_def)
qed


lemma getSource_example:
  "getSource two_devices_env example_config example_world =
     (Inr example_image, emit [Say ''using image b.img''] example_world)"
  by (simp add: getSource_def two_devices_env_def example_env_def example_config_def
        getMostRecent_def example_ModTime_def)

theorem getDevice_ambiguous_or_single_witness:
  "getDevice two_devices_env example_config example_world = (Inl AmbiguousDevice, example_world) \<and>
   fst (Flash two_devices_env example_config example_world) \<noteq> None \<and>
   nothing_written example_world (snd (Flash two_devices_env example_config example_world)) \<and>
   Flash two_devices_env example_config example_world =
     (Some AmbiguousDevice, emit [Say ''using image b.img'', CloseImage] example_world) \<and>
   getDevice example_env example_config example_world = (Inr example_device, example_world)"
proof -
  have two: "GetDetachableDevices two_devices_env = Inr [example_device, second_device]"
    by (simp add: two_devices_env_def)
  have one: "GetDetachableDevices example_env = Inr [example_device]"
    by (simp add: example_env_def)
  have cfg: "cfg_NotInteractive example_config" "cfg_Device example_config = []"
    by (simp_all add: example_config_def)
  note many = getDevice_ambiguous_or_single [OF cfg two, of example_world]
  note single = getDevice_ambiguous_or_single [OF cfg one, of example_world]
  have "getDevice two_devices_env example_config example_world = (Inl AmbiguousDevice, example_world)"
    using many by simp
  moreover have "fst (Flash two_devices_env example_config example_world) \<noteq> None"
    using many by simp
  moreover have "nothing_written example_world (snd (Flash two_devices_env example_config example_world))"
    using many by simp
  moreover have "Flash two_devices_env example_config example_world =
     (Some AmbiguousDevice, emit [Say ''using image b.img'', CloseImage] example_world)"
    using many getSource_example by (simp add: emit_emit)
  moreover have "getDevice example_env example_config example_world = (Inr example_device, example_world)"
    using single by simp
  ultimately show ?thesis by blast
qed

subsection \<open>The confirmation\<close>

lemma HasPrefix_yes: "HasPrefix ''yes'' a \<longleftrightarrow> a \<in> {[], ''y'', ''ye'', ''yes''}"
proof
  assume h: "HasPrefix ''yes'' a"
  then have len: "length a \<le> 3" and tk: "take (length a) ''yes'' = a"
    by (simp_all add: HasPrefix_def)
  from len consider "length a = 0" | "length a = 1" | "length a = 2" | "length a = 3"
    by linarith
  then show "a \<in> {[], ''y'', ''ye'', ''yes''}"
  proof cases
    case 1 then show ?thesis by simp
  next
    case 2 with tk have "a = ''y''" by auto
    then show ?thesis by simp
  next
    case 3 with tk have "a = ''ye''" by (auto simp: numeral_2_eq_2)
    then show ?thesis by simp
  next
    case 4 with tk have "a = ''yes''" by (auto simp: numeral_3_eq_3)
    then show ?thesis by simp
  qed
next
  assume "a \<in> {[], ''y'', ''ye'', ''yes''}"
  then show "HasPrefix ''yes'' a" by (auto simp: HasPrefix_def)
qed

text \<open>
  Claim C10. In an interactive run that has opened its source and resolved its device, let
  \<open>answer\<close> be the reply to "Are you sure?" after \<^verbatim>\<open>strings.ToLower\<close> and then
  \<^verbatim>\<open>strings.TrimSpace\<close>, whatever the reply and whatever these two library functions make
  of it. It is a prefix of \<^verbatim>\<open>"yes"\<close> exactly when it is one of \<^verbatim>\<open>""\<close>, \<^verbatim>\<open>"y"\<close>, \<^verbatim>\<open>"ye"\<close>,
  \<^verbatim>\<open>"yes"\<close>. If it is, the run goes on to unmount and flash; so the empty reply, which both
  functions leave empty, consents. If it is not, \<^verbatim>\<open>Flash\<close> returns "canceled by user",
  having unmounted and written nothing.
\<close>

theorem Flash_confirmation:
  assumes "\<not> cfg_NotInteractive cfg"
    and "getSource env cfg w0 = (Inr imageToFlash, w)"
    and "getDevice env cfg w = (Inr dev, w1)"
    and "ui_Ask env ''Are you sure?'' = Inr answer0"
    and "answer = strings_TrimSpace env (strings_ToLower env answer0)"
    and "w3 = emit [Say (''Going to flash to '' @ dev_Device dev @ ''.''), Ask ''Are you sure?''] w1"
  shows "(HasPrefix ''yes'' answer \<longleftrightarrow> answer \<in> {[], ''y'', ''ye'', ''yes''}) \<and>
         (answer \<in> {[], ''y'', ''ye'', ''yes''} \<longrightarrow>
            Flash_device env cfg imageToFlash w = Flash_write env cfg imageToFlash dev w3 \<and>
            Flash env cfg w0 =
              (fst (Flash_write env cfg imageToFlash dev w3),
               emit [CloseImage] (snd (Flash_write env cfg imageToFlash dev w3)))) \<and>
         (answer \<notin> {[], ''y'', ''ye'', ''yes''} \<longrightarrow>
            Flash_device env cfg imageToFlash w = (Some CanceledByUser, w3) \<and>
            Flash env cfg w0 = (Some CanceledByUser, emit [CloseImage] w3) \<and>
            nothing_written w0 (emit [CloseImage] w3))"
proof (intro conjI impI)
  show "HasPrefix ''yes'' answer \<longleftrightarrow> answer \<in> {[], ''y'', ''ye'', ''yes''}"
    by (rule HasPrefix_yes)
next
  assume yes: "answer \<in> {[], ''y'', ''ye'', ''yes''}"
  then have p: "HasPrefix ''yes'' (strings_TrimSpace env (strings_ToLower env answer0))"
    using assms(5) HasPrefix_yes by simp
  show d: "Flash_device env cfg imageToFlash w = Flash_write env cfg imageToFlash dev w3"
    using assms(1,3,4,6) p by (simp add: Flash_device_def emit_emit)
  show "Flash env cfg w0 =
              (fst (Flash_write env cfg imageToFlash dev w3),
               emit [CloseImage] (snd (Flash_write env cfg imageToFlash dev w3)))"
    using assms(2) d by (simp add: Flash_def split: prod.splits)
next
  assume no: "answer \<notin> {[], ''y'', ''ye'', ''yes''}"
  then have p: "\<not> HasPrefix ''yes'' (strings_TrimSpace env (strings_ToLower env answer0))"
    using assms(5) HasPrefix_yes by simp
  show d: "Flash_device env cfg imageToFlash w = (Some CanceledByUser, w3)"
    using assms(1,3,4,6) p by (simp add: Flash_device_def emit_emit)
  show "Flash env cfg w0 = (Some CanceledByUser, emit [CloseImage] w3)"
    using assms(2) d by (simp add: Flash_def)
  have "nothing_written w0 w" using assms(2) by (rule getSource_nothing_written)
  moreover have "nothing_written w w1" using assms(3) by (rule getDevice_nothing_written)
  moreover have "nothing_written w1 (emit [CloseImage] w3)"
    using nothing_written_emit [of "[Say (''Going to flash to '' @ dev_Device dev @ ''.''), Ask ''Are you sure?'', CloseImage]" w1]
    by (simp add: assms(6) emit_emit)
  ultimately show "nothing_written w0 (emit [CloseImage] w3)"
    by (blast intro: nothing_written_trans)
qed


lemma trim_lower_examples:
  "ascii_TrimSpace (ascii_ToLower []) = []" "ascii_TrimSpace (ascii_ToLower '' Ye '') = ''ye''"
  "ascii_TrimSpace (ascii_ToLower ''no'') = ''no''"
  by code_simp+

lemma strings_fields:
  "strings_ToLower example_env = ascii_ToLower" "strings_TrimSpace example_env = ascii_TrimSpace"
  "strings_ToLower ye_env = ascii_ToLower" "strings_TrimSpace ye_env = ascii_TrimSpace"
  "strings_ToLower no_env = ascii_ToLower" "strings_TrimSpace no_env = ascii_TrimSpace"
  by (simp_all add: example_env_def ye_env_def no_env_def)

lemma interactive_selection:
  "getSource (example_env\<lparr>ui_Ask := a\<rparr>) interactive_config example_world = (Inr example_image, example_world)"
  "getDevice (example_env\<lparr>ui_Ask := a\<rparr>) interactive_config example_world = (Inr example_device, example_world)"
  by (simp_all add: getSource_def getDevice_def example_env_def interactive_config_def example_device_def)

theorem Flash_confirmation_witness:
  "strings_TrimSpace example_env (strings_ToLower example_env []) = [] \<and>
   Flash_device example_env interactive_config example_image example_world =
     Flash_write example_env interactive_config example_image example_device
       (emit [Say ''Going to flash to /dev/sdb.'', Ask ''Are you sure?''] example_world) \<and>
   strings_TrimSpace ye_env (strings_ToLower ye_env '' Ye '') = ''ye'' \<and>
   Flash_device ye_env interactive_config example_image example_world =
     Flash_write ye_env interactive_config example_image example_device
       (emit [Say ''Going to flash to /dev/sdb.'', Ask ''Are you sure?''] example_world) \<and>
   strings_TrimSpace no_env (strings_ToLower no_env ''no'') = ''no'' \<and>
   Flash no_env interactive_config example_world =
     (Some CanceledByUser,
      emit [CloseImage] (emit [Say ''Going to flash to /dev/sdb.'', Ask ''Are you sure?''] example_world)) \<and>
   nothing_written example_world
     (emit [CloseImage] (emit [Say ''Going to flash to /dev/sdb.'', Ask ''Are you sure?''] example_world))"
proof -
  let ?w3 = "emit [Say ''Going to flash to /dev/sdb.'', Ask ''Are you sure?''] example_world"
  have i: "\<not> cfg_NotInteractive interactive_config" by (simp add: interactive_config_def)
  have w3: "?w3 = emit [Say (''Going to flash to '' @ dev_Device example_device @ ''.''), Ask ''Are you sure?''] example_world"
    by (simp add: example_device_def)
  have e: "example_env = example_env\<lparr>ui_Ask := (\<lambda>q. Inr [])\<rparr>"
    by (simp add: example_env_def)
  have src1: "getSource example_env interactive_config example_world = (Inr example_image, example_world)"
    and dev1: "getDevice example_env interactive_config example_world = (Inr example_device, example_world)"
    using interactive_selection [of "\<lambda>q. Inr []"] e by simp_all
  have ask1: "ui_Ask example_env ''Are you sure?'' = Inr []" by (simp add: example_env_def)
  have ask2: "ui_Ask ye_env ''Are you sure?'' = Inr '' Ye ''" by (simp add: ye_env_def)
  have ask3: "ui_Ask no_env ''Are you sure?'' = Inr ''no''" by (simp add: no_env_def)
  have t1: "[] = strings_TrimSpace example_env (strings_ToLower example_env [])"
    and t2: "''ye'' = strings_TrimSpace ye_env (strings_ToLower ye_env '' Ye '')"
    and t3: "''no'' = strings_TrimSpace no_env (strings_ToLower no_env ''no'')"
    by (simp_all add: strings_fields trim_lower_examples)
  note empty = Flash_confirmation [OF i src1 dev1 ask1 t1 w3]
  note ye = Flash_confirmation [OF i interactive_selection [of "\<lambda>q. Inr '' Ye ''", folded ye_env_def] ask2 t2 w3]
  note no = Flash_confirmation [OF i interactive_selection [of "\<lambda>q. Inr ''no''", folded no_env_def] ask3 t3 w3]
  have "Flash_device example_env interactive_config example_image example_world =
     Flash_write example_env interactive_config example_image example_device ?w3"
    using empty by simp
  moreover have "Flash_device ye_env interactive_config example_image example_world =
     Flash_write ye_env interactive_config example_image example_device ?w3"
    using ye by simp
  moreover have "Flash no_env interactive_config example_world = (Some CanceledByUser, emit [CloseImage] ?w3)"
    using no by simp
  moreover have "nothing_written example_world (emit [CloseImage] ?w3)"
    using no by simp
  ultimately show ?thesis using t1 [symmetric] t2 [symmetric] t3 [symmetric] by (intro conjI)
qed

subsection \<open>The copy loop\<close>

lemma File_Write_cases:
  assumes "File_Write env path (w, off) c = ((n, r), (w', off'))"
  shows "trace w' = trace w @ [WriteFile path off c]"
    and "off' = off + n" and "n \<le> length c"
    and "disk w' = (disk w)(path := overwrite (disk w path) off (take n c))"
    and "r = None \<Longrightarrow> n = length c"
  using assms by (auto simp: File_Write_def Let_def min_def split: option.splits prod.splits)

lemma copy_File_Write_trace:
  "CopyWithProgress (File_Write env path) (w, off) chunks ending = ((n, r), (w', off')) \<Longrightarrow>
     \<exists>evs. trace w' = trace w @ evs \<and> list_all is_WriteFile evs"
proof (induction chunks arbitrary: w off n r w' off')
  case Nil
  then show ?case by simp
next
  case (Cons c cs)
  obtain n1 e w1 off1 where fw: "File_Write env path (w, off) c = ((n1, e), (w1, off1))"
    by (metis surj_pair)
  have t1: "trace w1 = trace w @ [WriteFile path off c]" using fw by (rule File_Write_cases)
  show ?case
  proof (cases "e = None \<and> n1 = length c")
    case False
    then have "w' = w1" using Cons.prems fw by (cases e) (auto split: if_splits)
    then show ?thesis using t1 by simp
  next
    case True
    obtain n2 r2 w2 off2 where rest: "CopyWithProgress (File_Write env path) (w1, off1) cs ending = ((n2, r2), (w2, off2))"
      by (metis surj_pair)
    then have "w' = w2" using Cons.prems fw True by simp
    moreover from Cons.IH [OF rest] obtain evs where "trace w2 = trace w1 @ evs" "list_all is_WriteFile evs"
      by blast
    ultimately show ?thesis using t1 by simp
  qed
qed

lemma MultiWriter_Write_step:
  "MultiWriter_Write env path ((w, off), acc) c =
     (case File_Write env path (w, off) c of
        ((n, Some err), output1) \<Rightarrow> ((n, Some err), (output1, acc))
      | ((n, None), output1) \<Rightarrow>
          if n \<noteq> length c then ((n, Some ErrShortWrite), (output1, acc))
          else ((length c, None), (output1, acc @ c)))"
  by (simp add: MultiWriter_Write_def)

text \<open>
  The invariant of the copy through the MultiWriter: the hash has been fed a prefix of what
  the device holds and of the source, never more than the count; when the copy reports no
  error, the hash has been fed the whole source, and that is what the device holds in its
  first bytes.
\<close>

lemma copy_MultiWriter_spec:
  assumes "CopyWithProgress (MultiWriter_Write env path) ((w, off), acc) chunks ending = ((n, r), ((w', off'), acc'))"
    and "length acc = off" and "acc = take off (disk w path)"
  shows "off' = off + n \<and> length acc' \<le> off' \<and> acc' = take (length acc') (disk w' path) \<and>
         (\<exists>k\<le>n. acc' = acc @ take k (concat chunks)) \<and>
         (r = None \<longrightarrow> ending = None \<and> n = length (concat chunks) \<and> acc' = acc @ concat chunks \<and>
            length acc' = off') \<and>
         (\<exists>evs. trace w' = trace w @ evs \<and> list_all is_WriteFile evs)"
  using assms
proof (induction chunks arbitrary: w off acc n r w' off' acc')
  case Nil
  then show ?case by auto
next
  case (Cons c cs)
  obtain n1 e w1 off1 where fw: "File_Write env path (w, off) c = ((n1, e), (w1, off1))"
    by (metis surj_pair)
  note fwc = File_Write_cases [OF fw]
  have le: "off \<le> length (disk w path)"
    using Cons.prems(2,3) by (metis length_take min.cobounded1 min.commute)
  have pre: "take off (disk w1 path) = acc"
    using fwc(4) le Cons.prems(3) by (simp add: overwrite_def)
  show ?case
  proof (cases "e = None")
    case False
    then have eqs: "w' = w1" "off' = off1" "acc' = acc" "n = n1" "r = e"
      using Cons.prems(1) fw by (auto simp: MultiWriter_Write_step)
    have "off' = off + n" using eqs fwc(2) by simp
    moreover have "length acc' \<le> off'" using eqs fwc(2) Cons.prems(2) by simp
    moreover have "acc' = take (length acc') (disk w' path)" using eqs pre Cons.prems(2) by simp
    moreover have "\<exists>k\<le>n. acc' = acc @ take k (concat (c # cs))"
      using eqs by (intro exI [of _ 0]) simp
    moreover have "r \<noteq> None" using eqs False by simp
    moreover have "\<exists>evs. trace w' = trace w @ evs \<and> list_all is_WriteFile evs"
      using eqs fwc(1) by (intro exI [of _ "[WriteFile path off c]"]) simp
    ultimately show ?thesis by blast
  next
    case True
    then have n1: "n1 = length c" using fwc(5) by simp
    have st: "off1 = off + length c" using fwc(2) n1 by simp
    have acc1: "acc @ c = take off1 (disk w1 path)"
      using fwc(4) n1 st le Cons.prems(3) by (simp add: overwrite_def)
    have len1: "length (acc @ c) = off1" using st Cons.prems(2) by simp
    obtain n2 r2 w2 off2 acc2 where rest:
      "CopyWithProgress (MultiWriter_Write env path) ((w1, off1), acc @ c) cs ending = ((n2, r2), ((w2, off2), acc2))"
      by (metis surj_pair)
    then have eqs: "w' = w2" "off' = off2" "acc' = acc2" "n = length c + n2" "r = r2"
      using Cons.prems(1) fw True n1 by (simp_all add: MultiWriter_Write_step)
    from Cons.IH [OF rest len1 acc1]
    have ih: "off2 = off1 + n2" "length acc2 \<le> off2" "acc2 = take (length acc2) (disk w2 path)"
      "\<exists>k\<le>n2. acc2 = (acc @ c) @ take k (concat cs)"
      "r2 = None \<longrightarrow> ending = None \<and> n2 = length (concat cs) \<and> acc2 = (acc @ c) @ concat cs \<and>
         length acc2 = off2"
      "\<exists>evs. trace w2 = trace w1 @ evs \<and> list_all is_WriteFile evs"
      by blast+
    from ih(6) obtain evs where evs: "trace w2 = trace w1 @ evs" "list_all is_WriteFile evs" by blast
    from ih(4) obtain k where k: "k \<le> n2" "acc2 = (acc @ c) @ take k (concat cs)" by blast
    have "off' = off + n" using ih(1) eqs st by simp
    moreover have "length acc' \<le> off'" using ih(2) eqs by simp
    moreover have "acc' = take (length acc') (disk w' path)" using ih(3) eqs by simp
    moreover have "\<exists>k\<le>n. acc' = acc @ take k (concat (c # cs))"
      using k eqs by (intro exI [of _ "length c + k"]) simp
    moreover have "r = None \<longrightarrow> ending = None \<and> n = length (concat (c # cs)) \<and>
        acc' = acc @ concat (c # cs) \<and> length acc' = off'"
      using ih(5) eqs by auto
    moreover have "\<exists>evs. trace w' = trace w @ evs \<and> list_all is_WriteFile evs"
      using evs fwc(1) eqs by (intro exI [of _ "WriteFile path off c # evs"]) simp
    ultimately show ?thesis by blast
  qed
qed

subsection \<open>Counts as machine integers\<close>

lemma sint_of_nat_small: "n < 2 ^ 63 \<Longrightarrow> sint (of_nat n :: 64 word) = int n"
proof -
  assume a: "n < 2 ^ 63"
  have "sint (of_nat n :: 64 word) = signed_take_bit 63 (int n)"
    by (simp add: signed_of_nat)
  also have "\<dots> = int n"
    using a by (intro signed_take_bit_int_eq_self) (simp_all add: nat_less_iff [symmetric] )
  finally show ?thesis .
qed

lemma unat_of_nat_small: "n < 2 ^ 63 \<Longrightarrow> unat (of_nat n :: 64 word) = n"
  by (simp add: unat_of_nat)

subsection \<open>What flash returns\<close>

lemma flash_open_failed:
  "os_OpenFile env (trace w) (dev_Device device) = Some e \<Longrightarrow>
     flash env cfg input device w = (Inl e, emit [OpenFile (dev_Device device), CloseImage] w)"
  by (simp add: flash_def emit_emit)

text \<open>Once the device is open, \<^verbatim>\<open>flash\<close> returns a result, whatever the copy reports.\<close>

lemma flash_opened:
  assumes "os_OpenFile env (trace w) (dev_Device device) = None"
  shows "\<exists>res w'. flash env cfg input device w = (Inr res, w')"
  using assms by (simp add: flash_def Let_def split: prod.splits)

lemma flash_Inr_opened:
  "flash env cfg input device w = (Inr res, w') \<Longrightarrow> os_OpenFile env (trace w) (dev_Device device) = None"
  by (cases "os_OpenFile env (trace w) (dev_Device device)") (simp_all add: flash_open_failed)

lemma flash_trace:
  assumes "flash env cfg input device w = (Inr res, w')"
  shows "\<exists>writes. trace w' = trace w @ OpenFile (dev_Device device) # writes @ [CloseFile (dev_Device device), CloseImage] \<and>
           list_all is_WriteFile writes"
proof -
  let ?p = "dev_Device device"
  let ?w1 = "emit [OpenFile ?p] w"
  note op = flash_Inr_opened [OF assms]
  show ?thesis
  proof (cases "cfg_Verify cfg")
    case True
    obtain n r w2 off acc where cp:
      "CopyWithProgress (MultiWriter_Write env ?p) ((?w1, 0), []) (reads input) (rerr input) = ((n, r), ((w2, off), acc))"
      by (metis surj_pair)
    then have w': "w' = emit [CloseFile ?p, CloseImage] w2"
      using assms op True by (simp add: flash_def)
    from copy_MultiWriter_spec [OF cp] obtain evs where "trace w2 = trace ?w1 @ evs" "list_all is_WriteFile evs"
      by auto
    then show ?thesis using w' by simp
  next
    case False
    obtain n r w2 off where cp:
      "CopyWithProgress (File_Write env ?p) (?w1, 0) (reads input) (rerr input) = ((n, r), (w2, off))"
      by (metis surj_pair)
    then have w': "w' = emit [CloseFile ?p, CloseImage] w2"
      using assms op False by (simp add: flash_def)
    from copy_File_Write_trace [OF cp] obtain evs where "trace w2 = trace ?w1 @ evs" "list_all is_WriteFile evs"
      by auto
    then show ?thesis using w' by simp
  qed
qed

lemma flash_no_checksum:
  "\<not> cfg_Verify cfg \<Longrightarrow> flash env cfg input device w = (Inr res, w') \<Longrightarrow> res_Sum res = []"
  by (auto simp: flash_def Let_def split: option.splits prod.splits)

text \<open>With verification, the checksum is a digest.\<close>

lemma flash_Sum_digest:
  assumes "cfg_Verify cfg" and "flash env cfg input device w = (Inr res, w')"
  shows "\<exists>bs. res_Sum res = newHasher env bs"
  using assms by (auto simp: flash_def Let_def split: option.splits prod.splits)

text \<open>With verification and a copy that reported no error, the count is the length of the
  image, the checksum is the digest of the image, and the device holds the image in its
  first bytes.\<close>

lemma flash_checksum:
  assumes "cfg_Verify cfg" and "flash env cfg input device w = (Inr res, w')"
    and "snd (fst (CopyWithProgress (MultiWriter_Write env (dev_Device device))
                     ((emit [OpenFile (dev_Device device)] w, 0), []) (reads input) (rerr input))) = None"
  shows "res_BytesWritten res = of_nat (length (concat (reads input))) \<and>
         res_Sum res = newHasher env (concat (reads input)) \<and>
         take (length (concat (reads input))) (disk w' (dev_Device device)) = concat (reads input)"
proof -
  let ?p = "dev_Device device"
  let ?w1 = "emit [OpenFile ?p] w"
  note op = flash_Inr_opened [OF assms(2)]
  obtain n r w2 off acc where cp:
    "CopyWithProgress (MultiWriter_Write env ?p) ((?w1, 0), []) (reads input) (rerr input) = ((n, r), ((w2, off), acc))"
    by (metis surj_pair)
  then have res: "res = \<lparr>res_Sum = newHasher env acc, res_BytesWritten = of_nat n\<rparr>"
    and w': "w' = emit [CloseFile ?p, CloseImage] w2"
    using assms op by (simp_all add: flash_def)
  have r: "r = None" using assms(3) cp by simp
  have "length ([] :: byte list) = 0" "([] :: byte list) = take 0 (disk ?w1 ?p)" by simp_all
  from copy_MultiWriter_spec [OF cp this] r
  have "n = length (concat (reads input))" "acc = [] @ concat (reads input)"
    "acc = take (length acc) (disk w2 ?p)"
    by blast+
  then show ?thesis using res w' by auto
qed

subsection \<open>What verify does\<close>

lemma copy_Hash_Write:
  "CopyWithProgress Hash_Write acc chunks ending = ((length (concat chunks), ending), acc @ concat chunks)"
  by (induction chunks arbitrary: acc) (simp_all add: Hash_Write_def)

lemma concat_limit_reads: "concat (limit_reads n cs) = take n (concat cs)"
  by (induction cs arbitrary: n) auto

lemma verify_open_failed:
  "os_OpenFile env (trace w) (dev_Device dev) = Some e \<Longrightarrow>
     verify env res dev w = (Some e, emit [OpenFile (dev_Device dev)] w)"
  by (simp add: verify_def)

lemma verify_opened:
  assumes "os_OpenFile env (trace w) (dev_Device dev) = None"
    and "limitedInput = LimitedReader (device_read env (dev_Device dev) (disk w (dev_Device dev))) (sint (res_BytesWritten res))"
  shows "verify env res dev w =
     ((case rerr limitedInput of
         Some e \<Rightarrow> Some e
       | None \<Rightarrow> if newHasher env (concat (reads limitedInput)) \<noteq> res_Sum res then Some ChecksumsDifferent else None),
      emit (OpenFile (dev_Device dev) # map (ReadFile (dev_Device dev)) (reads limitedInput) @ [CloseFile (dev_Device dev)]) w)"
  using assms by (simp add: verify_def copy_Hash_Write Let_def emit_emit split: option.splits)

lemma verify_trace:
  "\<exists>evs. trace (snd (verify env res dev w)) = trace w @ OpenFile (dev_Device dev) # evs \<and>
         list_all (\<lambda>e. \<not> is_WriteFile e) evs"
proof (cases "os_OpenFile env (trace w) (dev_Device dev)")
  case None
  have "list_all (\<lambda>e. \<not> is_WriteFile e) (map (ReadFile (dev_Device dev)) cs @ [CloseFile (dev_Device dev)])" for cs
    by (induction cs) simp_all
  then show ?thesis using verify_opened [OF None refl, of res] by simp
next
  case (Some e)
  then show ?thesis by (simp add: verify_open_failed)
qed

lemma verify_disk: "disk (snd (verify env res dev w)) = disk w"
  by (cases "os_OpenFile env (trace w) (dev_Device dev)")
     (simp_all add: verify_open_failed verify_opened [OF _ refl])

subsection \<open>The example runs, evaluated\<close>

lemma unmount_idle:
  assumes "exec_umount env = (\<lambda>m. None)"
  shows "unmount env example_device run_selected =
     (None, emit [Say ''unmounting /mnt/x'', Umount ''/mnt/x'', Say ''unmounting /mnt/y'', Umount ''/mnt/y'',
           Say ''unmounting /mnt/z'', Umount ''/mnt/z''] run_selected)"
  using assms by (simp add: unmount_def example_device_def emit_def)

lemma idle_env_fields:
  "exec_umount idle_env = (\<lambda>m. None)" "os_OpenFile idle_env = (\<lambda>t p. None)"
  "write_fault idle_env = (\<lambda>p off c. None)" "newHasher idle_env = example_digest"
  "device_read idle_env = (\<lambda>p content. \<lparr>reads = [content], rerr = None\<rparr>)"
  by (simp_all add: idle_env_def example_env_def)

lemma corrupting_env_fields:
  "exec_umount corrupting_env = (\<lambda>m. None)" "os_OpenFile corrupting_env = (\<lambda>t p. None)"
  "write_fault corrupting_env = (\<lambda>p off c. None)" "newHasher corrupting_env = example_digest"
  "device_read corrupting_env = (\<lambda>p content. \<lparr>reads = [content[0 := 0]], rerr = None\<rparr>)"
  by (simp_all add: corrupting_env_def idle_env_def example_env_def)

lemma faulty_env_fields:
  "exec_umount faulty_env = (\<lambda>m. None)" "os_OpenFile faulty_env = (\<lambda>t p. None)"
  "write_fault faulty_env = (\<lambda>p off c. if off = 2 then Some (0, External ''input/output error'') else None)"
  "newHasher faulty_env = example_digest"
  "device_read faulty_env = (\<lambda>p content. \<lparr>reads = [content], rerr = None\<rparr>)"
  by (simp_all add: faulty_env_def idle_env_def example_env_def)

lemma selection_fields:
  "GetImageFilesInCurrentDir idle_env = [''a.img'', ''b.img'', ''c.img'']"
  "os_Stat idle_env = (\<lambda>f. Inr (example_ModTime f))"
  "imageOpener_Open idle_env = (\<lambda>p. Inr example_image)"
  "GetDetachableDevices idle_env = Inr [example_device]"
  "GetImageFilesInCurrentDir corrupting_env = [''a.img'', ''b.img'', ''c.img'']"
  "os_Stat corrupting_env = (\<lambda>f. Inr (example_ModTime f))"
  "imageOpener_Open corrupting_env = (\<lambda>p. Inr example_image)"
  "GetDetachableDevices corrupting_env = Inr [example_device]"
  "GetImageFilesInCurrentDir faulty_env = [''a.img'', ''b.img'', ''c.img'']"
  "os_Stat faulty_env = (\<lambda>f. Inr (example_ModTime f))"
  "imageOpener_Open faulty_env = (\<lambda>p. Inr example_image)"
  "GetDetachableDevices faulty_env = Inr [example_device]"
  by (simp_all add: faulty_env_def corrupting_env_def idle_env_def example_env_def)

lemma run_unmounted_idle:
  "exec_umount env = (\<lambda>m. None) \<Longrightarrow> run_unmounted env =
     emit [Say ''unmounting /mnt/x'', Umount ''/mnt/x'', Say ''unmounting /mnt/y'', Umount ''/mnt/y'',
           Say ''unmounting /mnt/z'', Umount ''/mnt/z''] run_selected"
  by (simp add: run_unmounted_def unmount_idle)

lemmas flash_eval = flash_def MultiWriter_Write_def File_Write_def overwrite_def Let_def
  example_config_def example_image_def example_device_def example_world_def run_selected_def
  example_digest_def emit_def

lemma flash_idle:
  "fst (flash idle_env example_config example_image example_device (run_unmounted idle_env)) =
     Inr \<lparr>res_Sum = [3, 6], res_BytesWritten = 3\<rparr>"
  "trace (run_flashed idle_env) = trace (run_unmounted idle_env) @
     [OpenFile ''/dev/sdb'', WriteFile ''/dev/sdb'' 0 [1, 2], WriteFile ''/dev/sdb'' 2 [3],
      CloseFile ''/dev/sdb'', CloseImage]"
  "disk (run_flashed idle_env) ''/dev/sdb'' = [1, 2, 3, 9, 9]"
  by (simp_all add: run_flashed_def run_unmounted_idle idle_env_fields flash_eval)

lemma flash_corrupting:
  "fst (flash corrupting_env example_config example_image example_device (run_unmounted corrupting_env)) =
     Inr \<lparr>res_Sum = [3, 6], res_BytesWritten = 3\<rparr>"
  "disk (run_flashed corrupting_env) ''/dev/sdb'' = [1, 2, 3, 9, 9]"
  by (simp_all add: run_flashed_def run_unmounted_idle corrupting_env_fields flash_eval)

lemma flash_faulty:
  "fst (flash faulty_env example_config example_image example_device (run_unmounted faulty_env)) =
     Inr \<lparr>res_Sum = [2, 3], res_BytesWritten = 2\<rparr>"
  "trace (run_flashed faulty_env) = trace (run_unmounted faulty_env) @
     [OpenFile ''/dev/sdb'', WriteFile ''/dev/sdb'' 0 [1, 2], WriteFile ''/dev/sdb'' 2 [3],
      CloseFile ''/dev/sdb'', CloseImage]"
  "disk (run_flashed faulty_env) ''/dev/sdb'' = [1, 2, 9, 9, 9]"
  by (simp_all add: run_flashed_def run_unmounted_idle faulty_env_fields flash_eval)

lemma flash_plain:
  "fst (flash idle_env plain_config example_image example_device (run_unmounted idle_env)) =
     Inr \<lparr>res_Sum = [], res_BytesWritten = 3\<rparr>"
  by (simp add: run_unmounted_idle idle_env_fields flash_eval plain_config_def)

lemma example_digest_nonempty: "example_digest bs \<noteq> []"
  by (simp add: example_digest_def)

lemma pair_fst_snd: "fst p = a \<Longrightarrow> p = (a, snd p)"
  by (cases p) simp

lemma flash_runs:
  "flash idle_env example_config example_image example_device (run_unmounted idle_env) =
     (Inr \<lparr>res_Sum = [3, 6], res_BytesWritten = 3\<rparr>, run_flashed idle_env)"
  "flash corrupting_env example_config example_image example_device (run_unmounted corrupting_env) =
     (Inr \<lparr>res_Sum = [3, 6], res_BytesWritten = 3\<rparr>, run_flashed corrupting_env)"
  "flash faulty_env example_config example_image example_device (run_unmounted faulty_env) =
     (Inr \<lparr>res_Sum = [2, 3], res_BytesWritten = 2\<rparr>, run_flashed faulty_env)"
  unfolding run_flashed_def
  by (rule pair_fst_snd, rule flash_idle(1) flash_corrupting(1) flash_faulty(1))+

lemma unmount_runs:
  "unmount idle_env example_device run_selected = (None, run_unmounted idle_env)"
  "unmount corrupting_env example_device run_selected = (None, run_unmounted corrupting_env)"
  "unmount faulty_env example_device run_selected = (None, run_unmounted faulty_env)"
  by (simp_all add: unmount_idle run_unmounted_idle idle_env_fields corrupting_env_fields faulty_env_fields)

subsection \<open>Flash after the confirmation\<close>

lemma Flash_write_result:
  assumes "unmount env dev w = (None, w1)" and "flash env cfg input dev w1 = (Inr res, w2)"
  shows "Flash_write env cfg input dev w =
           (None, if res_Sum res \<noteq> [] then snd (verify env res dev (emit [Sync] w2)) else emit [Sync] w2)"
  using assms by (simp add: Flash_write_def)

text \<open>The non-interactive run of \<open>example_config\<close>, in any environment that selects as
  \<open>example_env\<close> does and in which no mountpoint is busy and flash returns a result.\<close>

lemma Flash_example_run:
  assumes "GetImageFilesInCurrentDir env = [''a.img'', ''b.img'', ''c.img'']"
    and "os_Stat env = (\<lambda>f. Inr (example_ModTime f))"
    and "imageOpener_Open env = (\<lambda>p. Inr example_image)"
    and "GetDetachableDevices env = Inr [example_device]"
    and "unmount env example_device run_selected = (None, run_unmounted env)"
    and "flash env example_config example_image example_device (run_unmounted env) = (Inr res, run_flashed env)"
  shows "Flash env example_config example_world =
           (None, emit [CloseImage]
              (if res_Sum res \<noteq> [] then snd (verify env res example_device (emit [Sync] (run_flashed env)))
               else emit [Sync] (run_flashed env)))"
proof -
  have src: "getSource env example_config example_world =
      (Inr example_image, emit [Say ''using image b.img''] example_world)"
    using assms(1-3) by (simp add: getSource_def example_config_def getMostRecent_def example_ModTime_def)
  have dev: "getDevice env example_config w = (Inr example_device, w)" for w
    using assms(4) by (simp add: getDevice_def example_config_def slice_index_def)
  have sel: "emit [Say (''Going to flash to '' @ dev_Device example_device @ ''.'')]
               (emit [Say ''using image b.img''] example_world) = run_selected"
    by (simp add: run_selected_def example_device_def emit_emit)
  have "Flash_device env example_config example_image (emit [Say ''using image b.img''] example_world) =
      Flash_write env example_config example_image example_device run_selected"
    using dev sel by (simp add: Flash_device_def example_config_def)
  then show ?thesis
    using src Flash_write_result [OF assms(5,6)] by (simp add: Flash_def)
qed

subsection \<open>Writing and reading back\<close>

text \<open>
  After a copy that reported an error the digests need not agree, even when the device
  reads back what it holds: the short write has left on the device a byte that the hash
  was not fed, and the count includes it.
\<close>

lemma short_env_fields:
  "exec_umount short_env = (\<lambda>m. None)" "os_OpenFile short_env = (\<lambda>t p. None)"
  "write_fault short_env = (\<lambda>p off c. if off = 0 then Some (1, External ''input/output error'') else None)"
  "newHasher short_env = example_digest"
  "device_read short_env = (\<lambda>p content. \<lparr>reads = [content], rerr = None\<rparr>)"
  by (simp_all add: short_env_def idle_env_def example_env_def)

lemma flash_short:
  "fst (flash short_env example_config example_image example_device (run_unmounted short_env)) =
     Inr \<lparr>res_Sum = [0, 0], res_BytesWritten = 1\<rparr>"
  "disk (run_flashed short_env) ''/dev/sdb'' = [1, 9, 9, 9, 9]"
  by (simp_all add: run_flashed_def run_unmounted_idle short_env_fields flash_eval)

lemma verify_after_short_write:
  "fst (verify short_env \<lparr>res_Sum = [0, 0], res_BytesWritten = 1\<rparr> example_device
          (emit [Sync] (run_flashed short_env))) = Some ChecksumsDifferent"
proof -
  have op: "os_OpenFile short_env (trace (emit [Sync] (run_flashed short_env))) (dev_Device example_device) = None"
    by (simp add: short_env_fields)
  have dd: "dev_Device example_device = ''/dev/sdb''" by (simp add: example_device_def)
  show ?thesis
    using verify_opened [OF op refl, of "\<lparr>res_Sum = [0, 0], res_BytesWritten = 1\<rparr>"]
    by (simp add: dd short_env_fields flash_short(2) LimitedReader_def example_digest_def)
qed

text \<open>
  Claim C8. Let the flash phase succeed with verification on: \<^verbatim>\<open>flash\<close> returns a result and
  the copy it made reported no error, for an image of fewer than \<open>2^63\<close> bytes. In any later
  state in which the device still holds what it held when \<^verbatim>\<open>flash\<close> returned, on a healthy
  device (it opens, and reading it delivers what it holds, without error), \<^verbatim>\<open>verify\<close>
  succeeds: it reads exactly \<^verbatim>\<open>BytesWritten\<close> bytes, the first ones of the device and not the
  rest, they are the bytes of the image, and their digest is \<^verbatim>\<open>Sum\<close>. The digest is a
  function of the bytes written to the hash, whatever the chunks they came in: equal bytes
  give equal digests.
\<close>

theorem verify_after_flash_round_trip:
  assumes "cfg_Verify cfg"
    and "flash env cfg input dev w = (Inr res, w1)"
    and "snd (fst (CopyWithProgress (MultiWriter_Write env (dev_Device dev))
                     ((emit [OpenFile (dev_Device dev)] w, 0), []) (reads input) (rerr input))) = None"
    and "length (concat (reads input)) < 2 ^ 63"
    and "disk w2 (dev_Device dev) = disk w1 (dev_Device dev)"
    and "os_OpenFile env (trace w2) (dev_Device dev) = None"
    and "device_read env (dev_Device dev) (disk w2 (dev_Device dev)) = rd"
    and "rerr rd = None" and "concat (reads rd) = disk w2 (dev_Device dev)"
  shows "\<exists>chunks.
           verify env res dev w2 =
             (None, emit (OpenFile (dev_Device dev) # map (ReadFile (dev_Device dev)) chunks @ [CloseFile (dev_Device dev)]) w2) \<and>
           length (concat chunks) = unat (res_BytesWritten res) \<and>
           concat chunks = take (unat (res_BytesWritten res)) (disk w2 (dev_Device dev)) \<and>
           concat chunks = concat (reads input) \<and>
           newHasher env (concat chunks) = res_Sum res"
proof -
  let ?p = "dev_Device dev"
  let ?n = "length (concat (reads input))"
  from flash_checksum [OF assms(1,2,3)] have n:
    "res_BytesWritten res = of_nat ?n"
    "res_Sum res = newHasher env (concat (reads input))"
    "take ?n (disk w1 ?p) = concat (reads input)"
    by blast+
  have u: "unat (res_BytesWritten res) = ?n" using n(1) assms(4) by (simp add: unat_of_nat_small)
  have s: "sint (res_BytesWritten res) = int ?n" using n(1) assms(4) by (simp add: sint_of_nat_small)
  define lim where "lim = LimitedReader rd (sint (res_BytesWritten res))"
  have lim_err: "rerr lim = None" using assms(8) by (simp add: lim_def LimitedReader_def)
  have lim_bytes: "concat (reads lim) = take ?n (disk w2 ?p)"
    using assms(9) s by (simp add: lim_def LimitedReader_def concat_limit_reads)
  have bytes_img: "concat (reads lim) = concat (reads input)"
    using lim_bytes n(3) assms(5) by simp
  have dig: "newHasher env (concat (reads lim)) = res_Sum res"
    using bytes_img n(2) by simp
  have "verify env res dev w2 =
      (None, emit (OpenFile ?p # map (ReadFile ?p) (reads lim) @ [CloseFile ?p]) w2)"
    using verify_opened [OF assms(6), of lim res] assms(7) lim_err dig by (simp add: lim_def)
  then have "verify env res dev w2 =
             (None, emit (OpenFile ?p # map (ReadFile ?p) (reads lim) @ [CloseFile ?p]) w2) \<and>
           length (concat (reads lim)) = unat (res_BytesWritten res) \<and>
           concat (reads lim) = take (unat (res_BytesWritten res)) (disk w2 ?p) \<and>
           concat (reads lim) = concat (reads input) \<and>
           newHasher env (concat (reads lim)) = res_Sum res"
    using lim_bytes bytes_img dig u by simp
  then show ?thesis by (rule exI)
qed

theorem verify_after_flash_round_trip_witness:
  "\<exists>chunks.
     verify idle_env \<lparr>res_Sum = [3, 6], res_BytesWritten = 3\<rparr> example_device (emit [Sync] (run_flashed idle_env)) =
       (None, emit (OpenFile ''/dev/sdb'' # map (ReadFile ''/dev/sdb'') chunks @ [CloseFile ''/dev/sdb''])
                (emit [Sync] (run_flashed idle_env))) \<and>
     length (concat chunks) = 3 \<and> concat chunks = [1, 2, 3] \<and>
     disk (run_flashed idle_env) ''/dev/sdb'' = [1, 2, 3, 9, 9] \<and>
     example_digest (concat chunks) = [3, 6]"
proof -
  let ?res = "\<lparr>res_Sum = [3, 6], res_BytesWritten = 3\<rparr>"
  let ?w2 = "emit [Sync] (run_flashed idle_env)"
  have v: "cfg_Verify example_config" by (simp add: example_config_def)
  have f: "flash idle_env example_config example_image example_device (run_unmounted idle_env) =
      (Inr ?res, run_flashed idle_env)"
    unfolding run_flashed_def by (rule pair_fst_snd) (rule flash_idle(1))
  have ok: "snd (fst (CopyWithProgress (MultiWriter_Write idle_env (dev_Device example_device))
                     ((emit [OpenFile (dev_Device example_device)] (run_unmounted idle_env), 0), [])
                     (reads example_image) (rerr example_image))) = None"
    by (simp add: MultiWriter_Write_def File_Write_def idle_env_fields example_image_def Let_def)
  have size: "length (concat (reads example_image)) < 2 ^ 63" by (simp add: example_image_def)
  have d: "disk ?w2 (dev_Device example_device) = disk (run_flashed idle_env) (dev_Device example_device)"
    by simp
  have op: "os_OpenFile idle_env (trace ?w2) (dev_Device example_device) = None"
    by (simp add: idle_env_fields)
  have healthy: "rerr (device_read idle_env (dev_Device example_device) (disk ?w2 (dev_Device example_device))) = None"
    "concat (reads (device_read idle_env (dev_Device example_device) (disk ?w2 (dev_Device example_device)))) =
       disk ?w2 (dev_Device example_device)"
    by (simp_all add: idle_env_fields)
  from verify_after_flash_round_trip [OF v f ok size d op refl healthy]
  show ?thesis
    by (simp add: example_device_def example_image_def flash_idle(3) idle_env_fields)
qed

subsection \<open>The checksum gates the verification\<close>

text \<open>
  Claim C7. With a hash whose digest is never empty (\<^verbatim>\<open>md5\<close> gives 16 bytes), in a run that
  has unmounted the device and in which \<^verbatim>\<open>flash\<close> returns a result: the result has a checksum
  exactly when verification was requested; when it has one, \<^verbatim>\<open>Flash\<close> goes on, after the
  sync, with \<^verbatim>\<open>verify\<close>, which opens the device again; when it has none, the run ends with
  the sync and \<^verbatim>\<open>verify\<close> is never called.
\<close>

theorem checksum_present_iff_verify:
  assumes "\<And>bs. newHasher env bs \<noteq> []"
    and "unmount env dev w = (None, w1)"
    and "flash env cfg input dev w1 = (Inr res, w2)"
  shows "(res_Sum res \<noteq> [] \<longleftrightarrow> cfg_Verify cfg) \<and>
         (res_Sum res \<noteq> [] \<longrightarrow>
            Flash_write env cfg input dev w = (None, snd (verify env res dev (emit [Sync] w2))) \<and>
            (\<exists>evs. trace (snd (Flash_write env cfg input dev w)) =
                     trace w2 @ Sync # OpenFile (dev_Device dev) # evs)) \<and>
         (res_Sum res = [] \<longrightarrow> Flash_write env cfg input dev w = (None, emit [Sync] w2))"
proof (intro conjI impI)
  show "(res_Sum res \<noteq> []) = cfg_Verify cfg"
  proof (cases "cfg_Verify cfg")
    case True
    from flash_Sum_digest [OF True assms(3)] obtain bs where
      "res_Sum res = newHasher env bs" by blast
    then have "res_Sum res \<noteq> []" using assms(1) by simp
    then show ?thesis using True by simp
  next
    case False
    then show ?thesis using flash_no_checksum [OF False assms(3)] by simp
  qed
next
  assume p: "res_Sum res \<noteq> []"
  show fw: "Flash_write env cfg input dev w = (None, snd (verify env res dev (emit [Sync] w2)))"
    using assms(2,3) p by (simp add: Flash_write_def)
  from verify_trace [of env res dev "emit [Sync] w2"]
  show "\<exists>evs. trace (snd (Flash_write env cfg input dev w)) = trace w2 @ Sync # OpenFile (dev_Device dev) # evs"
    using fw by auto
next
  assume "res_Sum res = []"
  then show "Flash_write env cfg input dev w = (None, emit [Sync] w2)"
    using assms(2,3) by (simp add: Flash_write_def)
qed

theorem checksum_present_iff_verify_witness:
  "res_Sum \<lparr>res_Sum = [3, 6], res_BytesWritten = 3\<rparr> \<noteq> [] \<and> cfg_Verify example_config \<and>
   Flash_write idle_env example_config example_image example_device run_selected =
     (None, snd (verify idle_env \<lparr>res_Sum = [3, 6], res_BytesWritten = 3\<rparr> example_device
                   (emit [Sync] (run_flashed idle_env)))) \<and>
   (\<exists>evs. trace (snd (Flash_write idle_env example_config example_image example_device run_selected)) =
            trace (run_flashed idle_env) @ Sync # OpenFile ''/dev/sdb'' # evs) \<and>
   res_Sum \<lparr>res_Sum = [], res_BytesWritten = 3\<rparr> = [] \<and> \<not> cfg_Verify plain_config \<and>
   Flash_write idle_env plain_config example_image example_device run_selected =
     (None, emit [Sync] (snd (flash idle_env plain_config example_image example_device (run_unmounted idle_env))))"
proof -
  have h: "\<And>bs. newHasher idle_env bs \<noteq> []"
    by (simp add: idle_env_fields example_digest_nonempty)
  have p: "flash idle_env plain_config example_image example_device (run_unmounted idle_env) =
     (Inr \<lparr>res_Sum = [], res_BytesWritten = 3\<rparr>,
      snd (flash idle_env plain_config example_image example_device (run_unmounted idle_env)))"
    by (rule pair_fst_snd) (rule flash_plain)
  note with_verify = checksum_present_iff_verify [OF h unmount_runs(1) flash_runs(1)]
  note without = checksum_present_iff_verify [OF h unmount_runs(1) p]
  have "Flash_write idle_env example_config example_image example_device run_selected =
     (None, snd (verify idle_env \<lparr>res_Sum = [3, 6], res_BytesWritten = 3\<rparr> example_device
                   (emit [Sync] (run_flashed idle_env))))"
    using with_verify by simp
  moreover have "\<exists>evs. trace (snd (Flash_write idle_env example_config example_image example_device run_selected)) =
            trace (run_flashed idle_env) @ Sync # OpenFile ''/dev/sdb'' # evs"
  proof -
    have ne: "res_Sum \<lparr>res_Sum = [3, 6], res_BytesWritten = 3\<rparr> \<noteq> []" by simp
    have dd: "dev_Device example_device = ''/dev/sdb''" by (simp add: example_device_def)
    from with_verify ne
    have "\<exists>evs. trace (snd (Flash_write idle_env example_config example_image example_device run_selected)) =
            trace (run_flashed idle_env) @ Sync # OpenFile (dev_Device example_device) # evs"
      by blast
    then show ?thesis unfolding dd .
  qed
  moreover have "Flash_write idle_env plain_config example_image example_device run_selected =
     (None, emit [Sync] (snd (flash idle_env plain_config example_image example_device (run_unmounted idle_env))))"
    using without by simp
  moreover have "cfg_Verify example_config" "\<not> cfg_Verify plain_config"
    using with_verify without by simp_all
  ultimately show ?thesis by simp
qed

subsection \<open>The sync\<close>

lemma unmount_trace:
  assumes "unmount env dev w = (r, w')"
  shows "\<exists>evs. trace w' = trace w @ evs \<and> Sync \<notin> set evs \<and> list_all (\<lambda>e. \<not> is_ReadFile e) evs"
proof -
  from unmount_loop_spec [OF assms [unfolded unmount_def]] obtain tried where
    t: "trace w' = trace w @ concat (map (\<lambda>m. [Say (''unmounting '' @ m), Umount m]) tried)"
    by blast
  have "Sync \<notin> set (concat (map (\<lambda>m. [Say (''unmounting '' @ m), Umount m]) ms)) \<and>
        list_all (\<lambda>e. \<not> is_ReadFile e) (concat (map (\<lambda>m. [Say (''unmounting '' @ m), Umount m]) ms))" for ms
    by (induction ms) auto
  then show ?thesis using t by blast
qed

lemma is_WriteFile_not_Sync: "list_all is_WriteFile evs \<Longrightarrow> Sync \<notin> set evs \<and> list_all (\<lambda>e. \<not> is_ReadFile e) evs"
proof (induction evs)
  case Nil
  then show ?case by simp
next
  case (Cons e evs)
  then show ?case by (cases e) auto
qed

lemma flash_no_Sync:
  assumes "flash env cfg input dev w = (Inr res, w')"
  shows "\<exists>evs. trace w' = trace w @ evs \<and> Sync \<notin> set evs \<and> list_all (\<lambda>e. \<not> is_ReadFile e) evs"
proof -
  from flash_trace [OF assms] obtain writes where
    w: "trace w' = trace w @ OpenFile (dev_Device dev) # writes @ [CloseFile (dev_Device dev), CloseImage]"
      "list_all is_WriteFile writes"
    by blast
  from is_WriteFile_not_Sync [OF w(2)] w(1) show ?thesis by auto
qed

lemma verify_no_Sync:
  "\<exists>evs. trace (snd (verify env res dev w)) = trace w @ evs \<and> Sync \<notin> set evs \<and>
         list_all (\<lambda>e. \<not> is_WriteFile e) evs"
proof (cases "os_OpenFile env (trace w) (dev_Device dev)")
  case None
  have "Sync \<notin> set (map (ReadFile (dev_Device dev)) cs) \<and>
        list_all (\<lambda>e. \<not> is_WriteFile e) (map (ReadFile (dev_Device dev)) cs)" for cs
    by (induction cs) auto
  then show ?thesis using verify_opened [OF None refl, of res] by auto
next
  case (Some e)
  then show ?thesis by (simp add: verify_open_failed)
qed

text \<open>
  Claim C9, as stated, fails: \<^verbatim>\<open>flash\<close> returns its result without any sync. In the example
  run the trace at its return ends with the two writes and the two closes.
\<close>

theorem flash_returns_without_Sync:
  "fst (flash idle_env example_config example_image example_device (run_unmounted idle_env)) =
     Inr \<lparr>res_Sum = [3, 6], res_BytesWritten = 3\<rparr> \<and>
   trace (snd (flash idle_env example_config example_image example_device (run_unmounted idle_env))) =
     [Say ''using image b.img'', Say ''Going to flash to /dev/sdb.'',
      Say ''unmounting /mnt/x'', Umount ''/mnt/x'', Say ''unmounting /mnt/y'', Umount ''/mnt/y'',
      Say ''unmounting /mnt/z'', Umount ''/mnt/z'',
      OpenFile ''/dev/sdb'', WriteFile ''/dev/sdb'' 0 [1, 2], WriteFile ''/dev/sdb'' 2 [3],
      CloseFile ''/dev/sdb'', CloseImage] \<and>
   Sync \<notin> set (trace (snd (flash idle_env example_config example_image example_device (run_unmounted idle_env))))"
proof -
  have t: "trace (snd (flash idle_env example_config example_image example_device (run_unmounted idle_env))) =
     [Say ''using image b.img'', Say ''Going to flash to /dev/sdb.'',
      Say ''unmounting /mnt/x'', Umount ''/mnt/x'', Say ''unmounting /mnt/y'', Umount ''/mnt/y'',
      Say ''unmounting /mnt/z'', Umount ''/mnt/z'',
      OpenFile ''/dev/sdb'', WriteFile ''/dev/sdb'' 0 [1, 2], WriteFile ''/dev/sdb'' 2 [3],
      CloseFile ''/dev/sdb'', CloseImage]"
    using flash_idle(2)
    by (simp add: run_flashed_def run_unmounted_idle idle_env_fields run_selected_def example_world_def)
  show ?thesis using flash_idle(1) by (simp add: t)
qed

text \<open>
  Claim C9, amended. In a run that has unmounted the device and in which \<^verbatim>\<open>flash\<close> returns a
  result, \<^verbatim>\<open>flash\<close> itself performs no sync; \<^verbatim>\<open>Flash\<close> calls \<^verbatim>\<open>syscall.Sync\<close> right after
  \<^verbatim>\<open>flash\<close> has returned. Nothing is read from the device before that sync, and nothing is
  written and no second sync happens after it: every read of the verification comes after
  the sync.
\<close>

theorem Sync_after_flash_before_verify:
  assumes "unmount env dev w = (None, w1)" and "flash env cfg input dev w1 = (Inr res, w2)"
  shows "\<exists>before after.
           trace w2 = trace w @ before \<and>
           trace (snd (Flash_write env cfg input dev w)) = trace w @ before @ Sync # after \<and>
           Sync \<notin> set before \<and> list_all (\<lambda>e. \<not> is_ReadFile e) before \<and>
           Sync \<notin> set after \<and> list_all (\<lambda>e. \<not> is_WriteFile e) after"
proof -
  from unmount_trace [OF assms(1)] obtain us where
    us: "trace w1 = trace w @ us" "Sync \<notin> set us" "list_all (\<lambda>e. \<not> is_ReadFile e) us"
    by blast
  from flash_no_Sync [OF assms(2)] obtain fs where
    fs: "trace w2 = trace w1 @ fs" "Sync \<notin> set fs" "list_all (\<lambda>e. \<not> is_ReadFile e) fs"
    by blast
  from verify_no_Sync [of env res dev "emit [Sync] w2"] obtain vs where
    vs: "trace (snd (verify env res dev (emit [Sync] w2))) = trace (emit [Sync] w2) @ vs"
      "Sync \<notin> set vs" "list_all (\<lambda>e. \<not> is_WriteFile e) vs"
    by blast
  let ?after = "if length (res_Sum res) \<noteq> 0 then vs else []"
  have "trace w2 = trace w @ (us @ fs)" using us fs by simp
  moreover have "trace (snd (Flash_write env cfg input dev w)) = trace w @ (us @ fs) @ Sync # ?after"
    using assms us fs vs by (simp add: Flash_write_def)
  moreover have "Sync \<notin> set (us @ fs)" "list_all (\<lambda>e. \<not> is_ReadFile e) (us @ fs)"
    using us fs by simp_all
  moreover have "Sync \<notin> set ?after" "list_all (\<lambda>e. \<not> is_WriteFile e) ?after"
    using vs by simp_all
  ultimately show ?thesis by blast
qed

theorem Sync_after_flash_before_verify_witness:
  "\<exists>before after.
     trace (run_flashed idle_env) = trace run_selected @ before \<and>
     trace (snd (Flash_write idle_env example_config example_image example_device run_selected)) =
       trace run_selected @ before @ Sync # after \<and>
     Sync \<notin> set before \<and> list_all (\<lambda>e. \<not> is_ReadFile e) before \<and>
     Sync \<notin> set after \<and> list_all (\<lambda>e. \<not> is_WriteFile e) after"
  by (rule Sync_after_flash_before_verify [OF unmount_runs(1) flash_runs(1)])

subsection \<open>Errors that Flash does not return\<close>

lemma verify_corrupting:
  "verify corrupting_env \<lparr>res_Sum = [3, 6], res_BytesWritten = 3\<rparr> example_device
      (emit [Sync] (run_flashed corrupting_env)) =
     (Some ChecksumsDifferent,
      emit [OpenFile ''/dev/sdb'', ReadFile ''/dev/sdb'' [0, 2, 3], CloseFile ''/dev/sdb'']
        (emit [Sync] (run_flashed corrupting_env)))"
proof -
  have op: "os_OpenFile corrupting_env (trace (emit [Sync] (run_flashed corrupting_env))) (dev_Device example_device) = None"
    by (simp add: corrupting_env_fields)
  have dd: "dev_Device example_device = ''/dev/sdb''" by (simp add: example_device_def)
  show ?thesis
    using verify_opened [OF op refl, of "\<lparr>res_Sum = [3, 6], res_BytesWritten = 3\<rparr>"]
    by (simp add: dd corrupting_env_fields flash_corrupting(2) LimitedReader_def example_digest_def)
qed

text \<open>
  Claim C2 fails on the code. With verification on and a device whose first byte reads back
  with one bit changed, \<^verbatim>\<open>verify\<close> returns "checksums different - validation failed", a
  distinct error; \<^verbatim>\<open>Flash\<close> calls \<^verbatim>\<open>f.verify(*res, dev)\<close> without binding its result and
  returns \<^verbatim>\<open>nil\<close>.
\<close>

theorem Flash_drops_checksum_mismatch:
  "fst (flash corrupting_env example_config example_image example_device (run_unmounted corrupting_env)) =
     Inr \<lparr>res_Sum = [3, 6], res_BytesWritten = 3\<rparr> \<and>
   disk (run_flashed corrupting_env) ''/dev/sdb'' = [1, 2, 3, 9, 9] \<and>
   verify corrupting_env \<lparr>res_Sum = [3, 6], res_BytesWritten = 3\<rparr> example_device
      (emit [Sync] (run_flashed corrupting_env)) =
     (Some ChecksumsDifferent,
      emit [OpenFile ''/dev/sdb'', ReadFile ''/dev/sdb'' [0, 2, 3], CloseFile ''/dev/sdb'']
        (emit [Sync] (run_flashed corrupting_env))) \<and>
   Flash corrupting_env example_config example_world =
     (None,
      emit [CloseImage]
        (emit [OpenFile ''/dev/sdb'', ReadFile ''/dev/sdb'' [0, 2, 3], CloseFile ''/dev/sdb'']
           (emit [Sync] (run_flashed corrupting_env))))"
proof -
  have "Flash corrupting_env example_config example_world =
     (None,
      emit [CloseImage]
        (emit [OpenFile ''/dev/sdb'', ReadFile ''/dev/sdb'' [0, 2, 3], CloseFile ''/dev/sdb'']
           (emit [Sync] (run_flashed corrupting_env))))"
    using Flash_example_run [OF selection_fields(5-8) unmount_runs(2) flash_runs(2)]
    by (simp add: verify_corrupting)
  then show ?thesis
    using flash_corrupting verify_corrupting by (intro conjI)
qed

lemma copy_faulty:
  "fst (CopyWithProgress (MultiWriter_Write faulty_env ''/dev/sdb'')
          ((emit [OpenFile ''/dev/sdb''] (run_unmounted faulty_env), 0), []) [[1, 2], [3]] None) =
     (2, Some (External ''input/output error''))"
  by (simp add: MultiWriter_Write_def File_Write_def faulty_env_fields Let_def)

text \<open>
  Claim C3 fails on the code. When the second write to the device fails, the copy reports
  2 bytes and the error; \<^verbatim>\<open>flash\<close> does not read that error and returns a result with
  \<^verbatim>\<open>BytesWritten = 2\<close> and no error, and \<^verbatim>\<open>Flash\<close> returns \<^verbatim>\<open>nil\<close>.
\<close>

theorem flash_succeeds_on_copy_error:
  "fst (CopyWithProgress (MultiWriter_Write faulty_env ''/dev/sdb'')
          ((emit [OpenFile ''/dev/sdb''] (run_unmounted faulty_env), 0), []) [[1, 2], [3]] None) =
     (2, Some (External ''input/output error'')) \<and>
   fst (flash faulty_env example_config example_image example_device (run_unmounted faulty_env)) =
     Inr \<lparr>res_Sum = [2, 3], res_BytesWritten = 2\<rparr> \<and>
   disk (run_flashed faulty_env) ''/dev/sdb'' = [1, 2, 9, 9, 9] \<and>
   fst (Flash faulty_env example_config example_world) = None"
proof -
  have "fst (Flash faulty_env example_config example_world) = None"
    using Flash_example_run [OF selection_fields(9-12) unmount_runs(3) flash_runs(3)] by simp
  then show ?thesis
    using copy_faulty flash_faulty(1) flash_faulty(3) by (intro conjI)
qed

subsection \<open>The menus\<close>

text \<open>
  What a menu does with the reply: \<^verbatim>\<open>Choose\<close> accepts exactly the numbers from 1 to the
  number of candidates; \<^verbatim>\<open>getDevice\<close> rejects what is below 1 or above that number plus
  one, and for that number plus one it indexes the slice beyond its end.
\<close>

lemma Choose_selection:
  assumes "ui_Ask env (Choose_menu 0 files @ ''Which image should we use (type number)?'') = Inr answer"
  shows "fst (Choose env files w) =
           (case Atoi answer of
              Inl err \<Rightarrow> Inl err
            | Inr k \<Rightarrow> if 1 \<le> k \<and> k \<le> int (length files) then Inr (files ! nat (k - 1))
                       else Inl InvalidImageChosen)"
  using assms by (auto simp: Choose_def Let_def split: sum.splits)

lemma getDevice_selection:
  assumes "GetDetachableDevices env = Inr detachables" and "detachables \<noteq> []"
    and "cfg_Device cfg = []" and "\<not> cfg_NotInteractive cfg"
    and "ui_Ask env (''Which device should we choose?:'' @ [CHR 0x0A] @ getDevice_menu 0 detachables) = Inr answer"
  shows "fst (getDevice env cfg w) =
           (case Atoi answer of
              Inl err \<Rightarrow> Inl err
            | Inr k \<Rightarrow> if 1 \<le> k \<and> k \<le> int (length detachables) then Inr (detachables ! nat (k - 1))
                       else if k = int (length detachables) + 1 then Inl PanicIndexOutOfRange
                       else Inl InvalidSelection)"
  using assms by (auto simp: getDevice_def Let_def slice_index_def split: sum.splits)

lemma ParseUint_loop_not_numeric:
  "\<not> list_all is_digit cs \<Longrightarrow> \<exists>e. ParseUint_loop n cs = Inl e"
  by (induction cs arbitrary: n) auto

text \<open>A reply that is not a decimal number, with or without a sign, is rejected.\<close>

lemma Atoi_not_numeric:
  "s = [] \<or> \<not> list_all is_digit (if hd s = CHR ''-'' \<or> hd s = CHR ''+'' then tl s else s) \<Longrightarrow>
     \<exists>e. Atoi s = Inl e"
proof (cases "s = []")
  case True
  then show ?thesis by (simp add: Atoi_def)
next
  case False
  assume "s = [] \<or> \<not> list_all is_digit (if hd s = CHR ''-'' \<or> hd s = CHR ''+'' then tl s else s)"
  then have "\<not> list_all is_digit (if hd s = CHR ''-'' \<or> hd s = CHR ''+'' then tl s else s)"
    using False by simp
  from ParseUint_loop_not_numeric [OF this, of 0]
  show ?thesis using False by (auto simp: Atoi_def ParseUint_def Let_def)
qed

lemma digits_val_snoc: "digits_val n (cs @ [c]) = digits_val n cs * 10 + digit_val c"
  by (induction cs arbitrary: n) simp_all

lemma digits_val_ge: "n \<le> digits_val n cs"
proof (induction cs arbitrary: n)
  case Nil
  then show ?case by simp
next
  case (Cons c cs)
  have "n \<le> n * 10 + digit_val c" by simp
  also have "\<dots> \<le> digits_val (n * 10 + digit_val c) cs" by (rule Cons.IH)
  finally show ?case by simp
qed

lemma ParseUint_loop_digits:
  "list_all is_digit cs \<Longrightarrow> digits_val n cs < 2 ^ 64 \<Longrightarrow> ParseUint_loop n cs = Inr (digits_val n cs)"
proof (induction cs arbitrary: n)
  case Nil
  then show ?case by simp
next
  case (Cons c cs)
  have d: "is_digit c" and ds: "list_all is_digit cs" using Cons.prems(1) by simp_all
  have v: "digits_val (n * 10 + digit_val c) cs < 2 ^ 64" using Cons.prems(2) by simp
  have "n * 10 + digit_val c \<le> digits_val (n * 10 + digit_val c) cs" by (rule digits_val_ge)
  with v have b: "n * 10 + digit_val c < 2 ^ 64" by simp
  then have n: "\<not> (2 ^ 64 - 1) div 10 + 1 \<le> n" by simp
  have "\<not> 2 ^ 64 - 1 < n * 10 + digit_val c" using b by simp
  then show ?case using d n Cons.IH [OF ds v] by simp
qed

lemma digit_char:
  assumes "d < 10"
  shows "is_digit (char_of (48 + d))" and "digit_val (char_of (48 + d)) = d"
    and "char_of (48 + d) \<noteq> CHR ''-''" and "char_of (48 + d) \<noteq> CHR ''+''"
proof -
  have v: "(of_char (char_of (48 + d)) :: nat) = 48 + d" using assms by simp
  show "is_digit (char_of (48 + d))" using assms by (simp add: is_digit_def v)
  show "digit_val (char_of (48 + d)) = d" using assms by (simp add: digit_val_def)
  show "char_of (48 + d) \<noteq> CHR ''-''"
  proof
    assume "char_of (48 + d) = CHR ''-''"
    then have "(of_char (char_of (48 + d)) :: nat) = of_char CHR ''-''" by simp
    with v show False by simp
  qed
  show "char_of (48 + d) \<noteq> CHR ''+''"
  proof
    assume "char_of (48 + d) = CHR ''+''"
    then have "(of_char (char_of (48 + d)) :: nat) = of_char CHR ''+''" by simp
    with v show False by simp
  qed
qed

lemma Itoa_digits: "Itoa n \<noteq> [] \<and> list_all is_digit (Itoa n) \<and> digits_val 0 (Itoa n) = n \<and>
    hd (Itoa n) \<noteq> CHR ''-'' \<and> hd (Itoa n) \<noteq> CHR ''+''"
proof (induction n rule: Itoa.induct)
  case (1 n)
  show ?case
  proof (cases "n < 10")
    case True
    then show ?thesis using digit_char [OF True] by (simp add: Itoa.simps [of n])
  next
    case False
    have m: "n mod 10 < 10" by simp
    have eq: "Itoa n = Itoa (n div 10) @ [char_of (48 + n mod 10)]"
      using False by (simp add: Itoa.simps [of n])
    from "1.IH" [OF False] show ?thesis
      using digit_char [OF m] by (simp add: eq digits_val_snoc)
  qed
qed

text \<open>A typed decimal number is read back as that number.\<close>

lemma Atoi_Itoa:
  assumes "n < 2 ^ 63"
  shows "Atoi (Itoa n) = Inr (int n)"
proof -
  note d = Itoa_digits [of n]
  have "digits_val 0 (Itoa n) < 2 ^ 64" using d assms by simp
  then have "ParseUint_loop 0 (Itoa n) = Inr n"
    using ParseUint_loop_digits [of "Itoa n" 0] d by simp
  then show ?thesis using d assms by (simp add: Atoi_def ParseUint_def Let_def)
qed

lemma Itoa_1: "Itoa (Suc 0) = ''1''"
  by code_simp

lemma Atoi_2: "Atoi ''2'' = Inr 2"
  by (simp add: Atoi_def ParseUint_def is_digit_def digit_val_def)

text \<open>
  Claim C1 fails on the code. With one device in the menu, the reply 2 passes the check
  \<^verbatim>\<open>i < 0 || i > len(detachables)\<close> of \<^verbatim>\<open>getDevice\<close> (after the decrement \<open>i\<close> is 1, the
  length), and \<^verbatim>\<open>&detachables[i]\<close> panics. \<^verbatim>\<open>Choose\<close>, with one image in the menu, rejects
  the same reply with "invalid image chosen".
\<close>

theorem getDevice_panics_on_N_plus_1:
  "Atoi ''2'' = Inr 2 \<and>
   getDevice two_env prompting_config example_world =
     (Inl PanicIndexOutOfRange,
      emit [Ask (''Which device should we choose?:'' @ [CHR 0x0A] @ ''1. /dev/sdb (USB Disk)'' @ [CHR 0x0A])]
        example_world) \<and>
   Choose two_env [''a.img''] example_world =
     (Inl InvalidImageChosen,
      emit [Ask (''1. a.img'' @ [CHR 0x0A] @ ''Which image should we use (type number)?'')] example_world)"
proof -
  have "getDevice two_env prompting_config example_world =
     (Inl PanicIndexOutOfRange,
      emit [Ask (''Which device should we choose?:'' @ [CHR 0x0A] @ ''1. /dev/sdb (USB Disk)'' @ [CHR 0x0A])]
        example_world)"
    by (simp add: getDevice_def two_env_def example_env_def prompting_config_def example_device_def
          Atoi_2 Itoa_1 slice_index_def)
  moreover have "Choose two_env [''a.img''] example_world =
     (Inl InvalidImageChosen,
      emit [Ask (''1. a.img'' @ [CHR 0x0A] @ ''Which image should we use (type number)?'')] example_world)"
    by (simp add: Choose_def two_env_def example_env_def Atoi_2 Itoa_1)
  ultimately show ?thesis using Atoi_2 by (intro conjI)
qed

end
